theory Spec2Isabelle
  imports Main
begin

section \<open>The QtQuick tab bar view and its list model of dock widgets\<close>

text \<open>
  This theory embeds \<^verbatim>\<open>src/qtquick/views/TabBar.cpp\<close>: the class
  \<^verbatim>\<open>DockWidgetModel\<close> (the ordered collection of dock widgets behind a tab bar, with
  its current dock widget) and the stub \<^verbatim>\<open>TabBar::moveTabTo\<close>.

  The member declarations live in the QtQuick \<^verbatim>\<open>TabBar.h\<close>, which is not among the
  sources at hand; the fields below are the members \<^verbatim>\<open>TabBar.cpp\<close> reads and writes,
  with the types their uses there require.
\<close>

subsection \<open>Data\<close>

text \<open>
  A \<open>handle\<close> is the identity of one \<^verbatim>\<open>Core::DockWidget\<close> object. A pointer
  \<^verbatim>\<open>Core::DockWidget *\<close> that may be null is a \<open>handle option\<close>, \<open>None\<close> being
  \<^verbatim>\<open>nullptr\<close>. The controller hands \<^verbatim>\<open>insert\<close>, \<^verbatim>\<open>remove\<close> and
  \<^verbatim>\<open>contains\<close> a dock widget, so these take a handle; \<^verbatim>\<open>indexOf\<close> and
  \<^verbatim>\<open>setCurrentDockWidget\<close> also receive the null result of \<^verbatim>\<open>dockWidgetAt\<close> and
  take a pointer.

  Indices are C++ \<^verbatim>\<open>int\<close>s. The code only compares and forwards them, so they are
  modelled by \<open>int\<close>; every 32-bit value is one of them.
\<close>

type_synonym handle = nat

text \<open>
  The two connections \<^verbatim>\<open>insert\<close> makes per dock widget: \<^verbatim>\<open>titleChanged\<close> to the
  lambda calling \<^verbatim>\<open>emitDataChangedFor(dw)\<close>, and \<^verbatim>\<open>destroyed\<close> to the lambda
  calling \<^verbatim>\<open>remove(dw)\<close>. A \<^verbatim>\<open>QMetaObject::Connection\<close> is identified by the number
  Qt's connection table gave it.
\<close>

datatype signal = TitleChanged | Destroyed

datatype slot = EmitDataChangedFor handle | Remove handle

datatype connection =
  Connection (conn_id: nat) (conn_sender: handle) (conn_signal: signal) (conn_slot: slot)

text \<open>The four \<^verbatim>\<open>qWarning()\<close> messages of the model.\<close>

datatype warning =
    Couldnt_find handle            \<comment> \<open>\<^verbatim>\<open>emitDataChangedFor\<close>: "Couldn't find"\<close>
  | Nothing_to_remove handle       \<comment> \<open>\<^verbatim>\<open>remove\<close>: "Nothing to remove"\<close>
  | Unexpected_null_index handle   \<comment> \<open>\<^verbatim>\<open>currentIndex\<close>: "Unexpected null index for"\<close>
  | Shouldnt_happen                \<comment> \<open>\<^verbatim>\<open>insert\<close>: "Shouldn't happen"\<close>

text \<open>
  Everything the model does to the world outside its own members is appended to a log,
  in program order: the signals it emits (its own and those of
  \<^verbatim>\<open>QAbstractListModel\<close> raised by \<^verbatim>\<open>beginInsertRows\<close>, \<^verbatim>\<open>endInsertRows\<close>,
  \<^verbatim>\<open>beginRemoveRows\<close>, \<^verbatim>\<open>endRemoveRows\<close>), its warnings, and its calls into the
  Core layer (\<^verbatim>\<open>Core::DockWidget::setVisible\<close>, the scoped write of
  \<^verbatim>\<open>m_isSettingCurrent\<close>, \<^verbatim>\<open>Core::TabBar::setCurrentIndex\<close>). The Core layer and the
  slots that applications connect to these signals are not part of the sources; what
  they would do in response is not modelled.
\<close>

datatype event =
    QWarning warning
  | CountChanged
  | DockWidgetRemoved
  | DataChanged int int
  | RowsAboutToBeInserted int int
  | RowsInserted int int
  | RowsAboutToBeRemoved int int
  | RowsRemoved int int
  | SetVisible handle bool
  | IsSettingCurrentScope handle bool  \<comment> \<open>\<open>True\<close>: the guard sets the flag; \<open>False\<close>: it rolls back\<close>
  | TabBarSetCurrentIndex int

datatype error = Assert_index_out_of_range

record dockWidgetModel =
  m_dockWidgets :: "handle list"
  m_connections :: "handle \<rightharpoonup> connection list"
  m_currentDockWidget :: "handle option"
  m_removeGuard :: bool
  qt_connections :: "connection list"  \<comment> \<open>Qt's table of live connections to the model\<close>
  qt_next_conn :: nat                  \<comment> \<open>the number of the next connection\<close>
  events :: "event list"

text \<open>The model as its constructor leaves it.\<close>

definition DockWidgetModel_new :: dockWidgetModel where
  "DockWidgetModel_new =
     \<lparr>m_dockWidgets = [], m_connections = Map.empty, m_currentDockWidget = None,
      m_removeGuard = False, qt_connections = [], qt_next_conn = 0, events = []\<rparr>"

record tabBar =
  m_dockWidgetModel :: dockWidgetModel
  m_hoveredTabIndex :: int

subsection \<open>The Qt primitives the model calls\<close>

text \<open>
  \<^verbatim>\<open>indexOf\<close> of the Qt sequence scans from the front and answers the first position
  holding the value, or \<open>-1\<close>.
\<close>

fun qlist_indexOf_from :: "'a list \<Rightarrow> 'a \<Rightarrow> int \<Rightarrow> int" where
  "qlist_indexOf_from [] x i = - 1"
| "qlist_indexOf_from (y # ys) x i = (if y = x then i else qlist_indexOf_from ys x (i + 1))"

definition qlist_indexOf :: "'a list \<Rightarrow> 'a \<Rightarrow> int" where
  "qlist_indexOf xs x = qlist_indexOf_from xs x 0"

text \<open>
  \<^verbatim>\<open>insert(i, value)\<close> of the Qt sequence, for \<open>0 \<le> i \<le> size\<close>: the elements from
  position \<open>i\<close> on move up by one. Outside that range Qt asserts; the caller below checks
  the range before it gets here, the last equation is never reached from it.
\<close>

fun qlist_insert :: "nat \<Rightarrow> 'a \<Rightarrow> 'a list \<Rightarrow> 'a list" where
  "qlist_insert 0 x ys = x # ys"
| "qlist_insert (Suc i) x (y # ys) = y # qlist_insert i x ys"
| "qlist_insert (Suc i) x [] = [x]"

text \<open>\<^verbatim>\<open>removeOne(value)\<close> of the Qt sequence deletes the first occurrence, if any.\<close>

fun qlist_removeOne :: "'a \<Rightarrow> 'a list \<Rightarrow> 'a list" where
  "qlist_removeOne x [] = []"
| "qlist_removeOne x (y # ys) = (if y = x then ys else y # qlist_removeOne x ys)"

definition emit :: "event \<Rightarrow> dockWidgetModel \<Rightarrow> dockWidgetModel" where
  "emit e s = s\<lparr>events := events s @ [e]\<rparr>"

definition qt_connect ::
  "handle \<Rightarrow> signal \<Rightarrow> slot \<Rightarrow> dockWidgetModel \<Rightarrow> connection \<times> dockWidgetModel" where
  "qt_connect dw sig sl s =
     (let c = Connection (qt_next_conn s) dw sig sl
      in (c, s\<lparr>qt_connections := qt_connections s @ [c],
                qt_next_conn := Suc (qt_next_conn s)\<rparr>))"

definition qt_disconnect :: "connection \<Rightarrow> dockWidgetModel \<Rightarrow> dockWidgetModel" where
  "qt_disconnect c s = s\<lparr>qt_connections := removeAll c (qt_connections s)\<rparr>"

subsection \<open>Queries\<close>

definition DockWidgetModel_count :: "dockWidgetModel \<Rightarrow> int" where
  "DockWidgetModel_count s = int (length (m_dockWidgets s))"

definition DockWidgetModel_dockWidgetAt :: "dockWidgetModel \<Rightarrow> int \<Rightarrow> handle option" where
  "DockWidgetModel_dockWidgetAt s index =
     (if index < 0 \<or> index \<ge> int (length (m_dockWidgets s)) then None
      else Some (m_dockWidgets s ! nat index))"

definition DockWidgetModel_contains :: "dockWidgetModel \<Rightarrow> handle \<Rightarrow> bool" where
  "DockWidgetModel_contains s dw = (dw \<in> set (m_dockWidgets s))"

definition DockWidgetModel_currentDockWidget :: "dockWidgetModel \<Rightarrow> handle option" where
  "DockWidgetModel_currentDockWidget s = m_currentDockWidget s"

text \<open>The sequence holds dock widgets only, so the null pointer is at no position.\<close>

definition DockWidgetModel_indexOf :: "dockWidgetModel \<Rightarrow> handle option \<Rightarrow> int" where
  "DockWidgetModel_indexOf s dw =
     (case dw of None \<Rightarrow> - 1 | Some h \<Rightarrow> qlist_indexOf (m_dockWidgets s) h)"

text \<open>\<^verbatim>\<open>currentIndex\<close> answers an index and may log its warning.\<close>

definition DockWidgetModel_currentIndex :: "dockWidgetModel \<Rightarrow> int \<times> dockWidgetModel" where
  "DockWidgetModel_currentIndex s =
     (case m_currentDockWidget s of
        None \<Rightarrow> (- 1, s)
      | Some cur \<Rightarrow>
          (let index = qlist_indexOf (m_dockWidgets s) cur
           in (index, if index = - 1 then emit (QWarning (Unexpected_null_index cur)) s else s)))"

subsection \<open>Selecting the current dock widget\<close>

text \<open>
  \<^verbatim>\<open>setCurrentIndex\<close> and \<^verbatim>\<open>setCurrentDockWidget\<close> call each other. The recursion
  stops because, once \<^verbatim>\<open>m_currentDockWidget\<close> has been assigned, the index of that
  dock widget resolves either to the same dock widget or, for one that is not in the
  sequence, to the null pointer, whose own index resolves to the null pointer again.
\<close>

function DockWidgetModel_setCurrentIndex :: "int \<Rightarrow> dockWidgetModel \<Rightarrow> dockWidgetModel"
  and DockWidgetModel_setCurrentDockWidget ::
    "handle option \<Rightarrow> dockWidgetModel \<Rightarrow> dockWidgetModel" where
  "DockWidgetModel_setCurrentIndex index s =
     (let dw = DockWidgetModel_dockWidgetAt s index
      in if m_currentDockWidget s \<noteq> dw
         then emit (TabBarSetCurrentIndex index) (DockWidgetModel_setCurrentDockWidget dw s)
         else s)"
| "DockWidgetModel_setCurrentDockWidget dw s =
     (let s1 = (case m_currentDockWidget s of
                  Some cur \<Rightarrow> emit (SetVisible cur False) s
                | None \<Rightarrow> s);
          s2 = s1\<lparr>m_currentDockWidget := dw\<rparr>;
          s3 = DockWidgetModel_setCurrentIndex (DockWidgetModel_indexOf s2 dw) s2
      in case m_currentDockWidget s3 of
           Some cur \<Rightarrow>
             emit (IsSettingCurrentScope cur False)
               (emit (SetVisible cur True) (emit (IsSettingCurrentScope cur True) s3))
         | None \<Rightarrow> s3)"
  by pat_completeness auto

termination
proof -
  let ?m = "\<lambda>c. case c of
          Inl (index, s) \<Rightarrow>
            (if m_currentDockWidget s = DockWidgetModel_dockWidgetAt s index then 0 else 2)
        | Inr (dw, s) \<Rightarrow>
            (if DockWidgetModel_dockWidgetAt s (DockWidgetModel_indexOf s dw) = dw
             then 1 else (3::nat))"
  have present: "x \<in> set xs \<Longrightarrow>
      i \<le> qlist_indexOf_from xs x i \<and> qlist_indexOf_from xs x i < i + int (length xs) \<and>
      xs ! nat (qlist_indexOf_from xs x i - i) = x"
    for x :: handle and xs i
  proof (induction xs arbitrary: i)
    case Nil
    then show ?case by simp
  next
    case (Cons y ys)
    show ?case
    proof (cases "y = x")
      case True
      then show ?thesis by simp
    next
      case False
      with Cons.prems have "x \<in> set ys" by simp
      from Cons.IH[OF this, of "i + 1"]
      have k: "i + 1 \<le> qlist_indexOf_from ys x (i + 1)"
          "qlist_indexOf_from ys x (i + 1) < i + 1 + int (length ys)"
          "ys ! nat (qlist_indexOf_from ys x (i + 1) - (i + 1)) = x"
        by simp_all
      from k(1) have "nat (qlist_indexOf_from ys x (i + 1) - i) =
          Suc (nat (qlist_indexOf_from ys x (i + 1) - (i + 1)))"
        by arith
      with k False show ?thesis by simp
    qed
  qed
  have resolve: "DockWidgetModel_dockWidgetAt s (DockWidgetModel_indexOf s dw) = dw"
    if "dw = None \<or> (\<exists>h \<in> set (m_dockWidgets s). dw = Some h)" for s dw
  proof (cases dw)
    case None
    then show ?thesis
      by (simp add: DockWidgetModel_dockWidgetAt_def DockWidgetModel_indexOf_def)
  next
    case (Some h)
    with that have "h \<in> set (m_dockWidgets s)" by auto
    from present[OF this, of 0] Some show ?thesis
      by (simp add: DockWidgetModel_dockWidgetAt_def DockWidgetModel_indexOf_def
          qlist_indexOf_def)
  qed
  have at_resolved: "DockWidgetModel_dockWidgetAt s index = None \<or>
      (\<exists>h \<in> set (m_dockWidgets s). DockWidgetModel_dockWidgetAt s index = Some h)" for s index
    by (auto simp: DockWidgetModel_dockWidgetAt_def)
  show ?thesis
  proof (relation "measure ?m")
    show "wf (measure ?m)" by simp
  next
    fix index s x
    assume "x = DockWidgetModel_dockWidgetAt s index" "m_currentDockWidget s \<noteq> x"
    with resolve[OF at_resolved[of s index]]
    show "(Inr (x, s), Inl (index, s)) \<in> measure ?m" by simp
  next
    fix dw s x xa
    assume x: "x = (case m_currentDockWidget s of None \<Rightarrow> s
                    | Some cur \<Rightarrow> emit (SetVisible cur False) s)"
      and xa: "xa = x\<lparr>m_currentDockWidget := dw\<rparr>"
    have same: "m_dockWidgets xa = m_dockWidgets s" and cur: "m_currentDockWidget xa = dw"
      using x xa by (auto simp: emit_def split: option.splits)
    from same have "DockWidgetModel_indexOf xa dw = DockWidgetModel_indexOf s dw"
      by (cases dw) (simp_all add: DockWidgetModel_indexOf_def)
    moreover from same have "DockWidgetModel_dockWidgetAt xa i = DockWidgetModel_dockWidgetAt s i"
      for i
      by (simp add: DockWidgetModel_dockWidgetAt_def)
    ultimately have "DockWidgetModel_dockWidgetAt xa (DockWidgetModel_indexOf xa dw) =
        DockWidgetModel_dockWidgetAt s (DockWidgetModel_indexOf s dw)"
      by simp
    with cur show "(Inl (DockWidgetModel_indexOf xa dw, xa), Inr (dw, s)) \<in> measure ?m"
      by auto
  qed
qed

declare DockWidgetModel_setCurrentIndex.simps [simp del]
declare DockWidgetModel_setCurrentDockWidget.simps [simp del]

subsection \<open>Inserting and removing\<close>

text \<open>
  \<^verbatim>\<open>emitDataChangedFor\<close>: the slot behind \<^verbatim>\<open>titleChanged\<close>.
\<close>

definition DockWidgetModel_emitDataChangedFor ::
  "handle \<Rightarrow> dockWidgetModel \<Rightarrow> dockWidgetModel" where
  "DockWidgetModel_emitDataChangedFor dw s =
     (let row = DockWidgetModel_indexOf s (Some dw)
      in if row = - 1 then emit (QWarning (Couldnt_find dw)) s
         else emit (DataChanged row row) s)"

text \<open>
  \<^verbatim>\<open>remove\<close>. The \<^verbatim>\<open>QScopedValueRollback\<close> stores \<^verbatim>\<open>true\<close> in
  \<^verbatim>\<open>m_removeGuard\<close> when it is constructed, in the first statement, and writes the
  value it found back when the function returns. A call made while another
  \<^verbatim>\<open>remove\<close> is running is a call on a state whose \<^verbatim>\<open>m_removeGuard\<close> is set.
\<close>

definition DockWidgetModel_remove :: "handle \<Rightarrow> dockWidgetModel \<Rightarrow> dockWidgetModel" where
  "DockWidgetModel_remove dw s =
     (let saved = m_removeGuard s;
          s0 = s\<lparr>m_removeGuard := True\<rparr>;
          row = DockWidgetModel_indexOf s0 (Some dw);
          s' =
            (if row = - 1 then
               (if \<not> m_removeGuard s0 then emit (QWarning (Nothing_to_remove dw)) s0 else s0)
             else
               (let connections = (case m_connections s0 dw of Some cs \<Rightarrow> cs | None \<Rightarrow> []);
                    s1 = s0\<lparr>m_connections := (m_connections s0)(dw := None)\<rparr>;
                    s2 = fold qt_disconnect connections s1;
                    s3 = emit (RowsAboutToBeRemoved row row) s2;
                    s4 = s3\<lparr>m_dockWidgets := qlist_removeOne dw (m_dockWidgets s3)\<rparr>;
                    s5 = emit (RowsRemoved row row) s4
                in emit DockWidgetRemoved (emit CountChanged s5)))
      in s'\<lparr>m_removeGuard := saved\<rparr>)"

text \<open>
  \<^verbatim>\<open>insert\<close>. \<^verbatim>\<open>beginInsertRows\<close> and the sequence's \<^verbatim>\<open>insert\<close> both require
  \<open>0 \<le> index \<le> size\<close> and assert it; with the assertions compiled out the behaviour is
  undefined. The model stops there with the error result. The duplicate check comes
  first, as in the code, so a rejected duplicate never reaches the assertion.
\<close>

definition DockWidgetModel_insert ::
  "handle \<Rightarrow> int \<Rightarrow> dockWidgetModel \<Rightarrow> error + bool \<times> dockWidgetModel" where
  "DockWidgetModel_insert dw index s =
     (if dw \<in> set (m_dockWidgets s) then Inr (False, emit (QWarning Shouldnt_happen) s)
      else
        (let (conn, s1) = qt_connect dw TitleChanged (EmitDataChangedFor dw) s;
             (conn2, s2) = qt_connect dw Destroyed (Remove dw) s1;
             s3 = s2\<lparr>m_connections := (m_connections s2)(dw \<mapsto> [conn, conn2])\<rparr>
         in if index < 0 \<or> index > int (length (m_dockWidgets s3))
            then Inl Assert_index_out_of_range
            else
              (let s4 = emit (RowsAboutToBeInserted index index) s3;
                   s5 = s4\<lparr>m_dockWidgets := qlist_insert (nat index) dw (m_dockWidgets s4)\<rparr>;
                   s6 = emit (RowsInserted index index) s5
               in Inr (True, emit CountChanged s6))))"

subsection \<open>Signals of a dock widget reaching the model\<close>

text \<open>
  When a dock widget raises a signal, Qt runs the slots of the connections that are
  live for this sender and signal, in the order they were made; a connection that an
  earlier slot of the same emission has disconnected is skipped. \<^verbatim>\<open>QObject::destroyed\<close>
  is raised by the destructor, after which Qt drops every connection of the dying sender.
\<close>

fun run_slot :: "slot \<Rightarrow> dockWidgetModel \<Rightarrow> dockWidgetModel" where
  "run_slot (EmitDataChangedFor dw) s = DockWidgetModel_emitDataChangedFor dw s"
| "run_slot (Remove dw) s = DockWidgetModel_remove dw s"

fun qt_activate :: "connection list \<Rightarrow> dockWidgetModel \<Rightarrow> dockWidgetModel" where
  "qt_activate [] s = s"
| "qt_activate (c # cs) s =
     qt_activate cs (if c \<in> set (qt_connections s) then run_slot (conn_slot c) s else s)"

definition titleChanged :: "handle \<Rightarrow> dockWidgetModel \<Rightarrow> dockWidgetModel" where
  "titleChanged dw s =
     qt_activate
       (filter (\<lambda>c. conn_sender c = dw \<and> conn_signal c = TitleChanged) (qt_connections s)) s"

definition destroyed :: "handle \<Rightarrow> dockWidgetModel \<Rightarrow> dockWidgetModel" where
  "destroyed dw s =
     (let s' = qt_activate
                 (filter (\<lambda>c. conn_sender c = dw \<and> conn_signal c = Destroyed)
                    (qt_connections s)) s
      in s'\<lparr>qt_connections := filter (\<lambda>c. conn_sender c \<noteq> dw) (qt_connections s')\<rparr>)"

subsection \<open>The tab bar view\<close>

definition TabBar_moveTabTo :: "int \<Rightarrow> int \<Rightarrow> tabBar \<Rightarrow> tabBar" where
  "TabBar_moveTabTo from to t = t"

definition TabBar_setCurrentIndex :: "int \<Rightarrow> tabBar \<Rightarrow> tabBar" where
  "TabBar_setCurrentIndex index t =
     t\<lparr>m_dockWidgetModel := DockWidgetModel_setCurrentIndex index (m_dockWidgetModel t)\<rparr>"

definition TabBar_removeDockWidget :: "handle \<Rightarrow> tabBar \<Rightarrow> tabBar" where
  "TabBar_removeDockWidget dw t =
     t\<lparr>m_dockWidgetModel := DockWidgetModel_remove dw (m_dockWidgetModel t)\<rparr>"

definition TabBar_insertDockWidget :: "int \<Rightarrow> handle \<Rightarrow> tabBar \<Rightarrow> error + tabBar" where
  "TabBar_insertDockWidget index dw t =
     (case DockWidgetModel_insert dw index (m_dockWidgetModel t) of
        Inl e \<Rightarrow> Inl e
      | Inr (ok, m) \<Rightarrow> Inr (t\<lparr>m_dockWidgetModel := m\<rparr>))"

subsection \<open>Observations and invariants\<close>

text \<open>The part of the log written between an earlier state and a later one.\<close>

definition emitted :: "dockWidgetModel \<Rightarrow> dockWidgetModel \<Rightarrow> event list" where
  "emitted s s' = drop (length (events s)) (events s')"

text \<open>
  The invariant of the current dock widget: it is absent, and then \<^verbatim>\<open>currentIndex()\<close>
  is \<open>-1\<close>, or it is an element of the sequence.
\<close>

definition current_inv :: "dockWidgetModel \<Rightarrow> bool" where
  "current_inv s =
     (case m_currentDockWidget s of
        None \<Rightarrow> fst (DockWidgetModel_currentIndex s) = - 1
      | Some cur \<Rightarrow> cur \<in> set (m_dockWidgets s))"

definition is_current :: "dockWidgetModel \<Rightarrow> handle \<Rightarrow> bool" where
  "is_current s dw = (m_currentDockWidget s = Some dw)"

text \<open>
  The invariant of the subscriptions: no dock widget is in the sequence twice; each one
  in the sequence has exactly the two live connections \<^verbatim>\<open>insert\<close> made for it, and
  \<^verbatim>\<open>m_connections\<close> records them; no live connection belongs to a dock widget outside
  the sequence.
\<close>

definition live_connections_of :: "dockWidgetModel \<Rightarrow> handle \<Rightarrow> connection list" where
  "live_connections_of s dw = filter (\<lambda>c. conn_sender c = dw) (qt_connections s)"

definition subscribed :: "dockWidgetModel \<Rightarrow> handle \<Rightarrow> bool" where
  "subscribed s dw =
     (case m_connections s dw of
        None \<Rightarrow> False
      | Some cs \<Rightarrow>
          cs = live_connections_of s dw \<and>
          (case cs of
             [c, c2] \<Rightarrow>
               conn_signal c = TitleChanged \<and> conn_slot c = EmitDataChangedFor dw \<and>
               conn_signal c2 = Destroyed \<and> conn_slot c2 = Remove dw
           | _ \<Rightarrow> False))"

definition model_inv :: "dockWidgetModel \<Rightarrow> bool" where
  "model_inv s =
     (distinct (m_dockWidgets s) \<and>
      list_all (subscribed s) (m_dockWidgets s) \<and>
      list_all (\<lambda>c. conn_sender c \<in> set (m_dockWidgets s)) (qt_connections s))"

subsection \<open>Sequences of operations and their list semantics\<close>

datatype op = Op_insert handle int | Op_remove handle

fun apply_op :: "op \<Rightarrow> dockWidgetModel \<Rightarrow> error + dockWidgetModel" where
  "apply_op (Op_insert dw index) s =
     (case DockWidgetModel_insert dw index s of Inl e \<Rightarrow> Inl e | Inr (ok, s') \<Rightarrow> Inr s')"
| "apply_op (Op_remove dw) s = Inr (DockWidgetModel_remove dw s)"

fun run_ops :: "op list \<Rightarrow> dockWidgetModel \<Rightarrow> error + dockWidgetModel" where
  "run_ops [] s = Inr s"
| "run_ops (x # xs) s =
     (case apply_op x s of Inl e \<Rightarrow> Inl e | Inr s' \<Rightarrow> run_ops xs s')"

text \<open>
  The list operations the specification compares with: splicing a handle in at a
  position, deleting a handle, and the position of a handle (\<open>-1\<close> when it is not there).
\<close>

definition spec_splice_in :: "handle list \<Rightarrow> int \<Rightarrow> handle \<Rightarrow> handle list" where
  "spec_splice_in xs i h = take (nat i) xs @ [h] @ drop (nat i) xs"

definition spec_delete :: "handle list \<Rightarrow> handle \<Rightarrow> handle list" where
  "spec_delete xs h = filter (\<lambda>x. x \<noteq> h) xs"

definition spec_position :: "handle list \<Rightarrow> handle \<Rightarrow> int" where
  "spec_position xs h =
     (if h \<in> set xs then int (length (takeWhile (\<lambda>x. x \<noteq> h) xs)) else - 1)"

fun spec_run :: "op list \<Rightarrow> handle list \<Rightarrow> handle list" where
  "spec_run [] xs = xs"
| "spec_run (Op_insert h i # ops) xs = spec_run ops (spec_splice_in xs i h)"
| "spec_run (Op_remove h # ops) xs = spec_run ops (spec_delete xs h)"

fun inserted_handles :: "op list \<Rightarrow> handle list" where
  "inserted_handles [] = []"
| "inserted_handles (Op_insert h i # ops) = h # inserted_handles ops"
| "inserted_handles (Op_remove h # ops) = inserted_handles ops"

text \<open>Every insertion index lies within the sequence as it is at that moment.\<close>

fun indices_in_range :: "op list \<Rightarrow> handle list \<Rightarrow> bool" where
  "indices_in_range [] xs = True"
| "indices_in_range (Op_insert h i # ops) xs =
     (0 \<le> i \<and> i \<le> int (length xs) \<and> indices_in_range ops (spec_splice_in xs i h))"
| "indices_in_range (Op_remove h # ops) xs = indices_in_range ops (spec_delete xs h)"

subsection \<open>Concrete states\<close>

text \<open>
  States reached from the freshly constructed model by the operations themselves; they
  serve as the concrete inputs of the examples below.
\<close>

definition after_ops :: "op list \<Rightarrow> dockWidgetModel" where
  "after_ops ops =
     (case run_ops ops DockWidgetModel_new of Inr s \<Rightarrow> s | Inl e \<Rightarrow> DockWidgetModel_new)"

text \<open>One tab, dock widget 1, which is current.\<close>

definition tab_1_current :: dockWidgetModel where
  "tab_1_current = DockWidgetModel_setCurrentIndex 0 (after_ops [Op_insert 1 0])"

text \<open>Two tabs, dock widgets 1 and 2 in this order, the second being current.\<close>

definition tabs_1_2_current_2 :: dockWidgetModel where
  "tabs_1_2_current_2 =
     DockWidgetModel_setCurrentIndex 1 (after_ops [Op_insert 1 0, Op_insert 2 1])"

text \<open>
  The state a slot connected to \<^verbatim>\<open>dockWidgetRemoved()\<close> finds when \<^verbatim>\<open>remove(3)\<close>, called
  on the tabs 1, 2, 3, emits that last signal: dock widget 3 is gone from the sequence and
  the guard of the running \<^verbatim>\<open>remove\<close> has not been rolled back yet. A \<^verbatim>\<open>remove\<close> that
  such a slot calls is a nested call.
\<close>

definition inside_remove :: dockWidgetModel where
  "inside_remove =
     (DockWidgetModel_remove 3 (after_ops [Op_insert 1 0, Op_insert 2 1, Op_insert 3 2]))
       \<lparr>m_removeGuard := True\<rparr>"

section \<open>Properties\<close>

subsection \<open>The Qt sequence primitives\<close>

lemma qlist_indexOf_from_eq:
  "qlist_indexOf_from xs x i =
     (if x \<in> set xs then i + int (length (takeWhile (\<lambda>y. y \<noteq> x) xs)) else - 1)"
  by (induction xs arbitrary: i) auto

lemma qlist_indexOf_eq_position: "qlist_indexOf xs h = spec_position xs h"
  by (simp add: qlist_indexOf_def spec_position_def qlist_indexOf_from_eq)

lemma qlist_indexOf_absent: "x \<notin> set xs \<Longrightarrow> qlist_indexOf xs x = - 1"
  by (simp add: qlist_indexOf_def qlist_indexOf_from_eq)

lemma qlist_indexOf_present:
  assumes "x \<in> set xs"
  shows "0 \<le> qlist_indexOf xs x" "qlist_indexOf xs x < int (length xs)"
    "xs ! nat (qlist_indexOf xs x) = x"
proof -
  let ?n = "length (takeWhile (\<lambda>y. y \<noteq> x) xs)"
  have eq: "qlist_indexOf xs x = int ?n"
    using assms by (simp add: qlist_indexOf_def qlist_indexOf_from_eq)
  have lt: "?n < length xs"
    using assms by (induction xs) auto
  show "0 \<le> qlist_indexOf xs x" using eq by simp
  show "qlist_indexOf xs x < int (length xs)" using eq lt by simp
  from lt have "xs ! ?n = x"
    using nth_length_takeWhile[of "\<lambda>y. y \<noteq> x" xs] by simp
  then show "xs ! nat (qlist_indexOf xs x) = x" using eq by simp
qed

lemma qlist_indexOf_nth:
  "distinct xs \<Longrightarrow> n < length xs \<Longrightarrow> qlist_indexOf xs (xs ! n) = int n"
proof -
  assume d: "distinct xs" and n: "n < length xs"
  have "xs ! n \<in> set xs" using n by simp
  from qlist_indexOf_present[OF this]
  have "nat (qlist_indexOf xs (xs ! n)) < length xs"
    "xs ! nat (qlist_indexOf xs (xs ! n)) = xs ! n" "0 \<le> qlist_indexOf xs (xs ! n)"
    by simp_all
  with d n have "nat (qlist_indexOf xs (xs ! n)) = n"
    by (simp add: nth_eq_iff_index_eq)
  with \<open>0 \<le> qlist_indexOf xs (xs ! n)\<close> show ?thesis by simp
qed

lemma qlist_insert_eq:
  "i \<le> length xs \<Longrightarrow> qlist_insert i x xs = take i xs @ x # drop i xs"
  by (induction i x xs rule: qlist_insert.induct) auto

lemma qlist_removeOne_eq: "qlist_removeOne x xs = remove1 x xs"
  by (induction xs) auto

lemma filter_neq_absent: "x \<notin> set xs \<Longrightarrow> filter (\<lambda>y. y \<noteq> x) xs = xs"
  by (induction xs) auto

lemma qlist_removeOne_distinct:
  "distinct xs \<Longrightarrow> qlist_removeOne x xs = filter (\<lambda>y. y \<noteq> x) xs"
  by (induction xs) (auto simp: filter_neq_absent)

lemma qlist_removeOne_absent: "x \<notin> set xs \<Longrightarrow> qlist_removeOne x xs = xs"
  by (simp add: qlist_removeOne_eq remove1_idem)

subsection \<open>Resolving indices and selecting the current dock widget\<close>

lemma dockWidgetAt_resolved:
  "DockWidgetModel_dockWidgetAt s index = None \<or>
   (\<exists>h \<in> set (m_dockWidgets s). DockWidgetModel_dockWidgetAt s index = Some h)"
  by (auto simp: DockWidgetModel_dockWidgetAt_def)

lemma dockWidgetAt_indexOf_None:
  "DockWidgetModel_dockWidgetAt s (DockWidgetModel_indexOf s None) = None"
  by (simp add: DockWidgetModel_dockWidgetAt_def DockWidgetModel_indexOf_def)

lemma dockWidgetAt_indexOf_Some:
  "h \<in> set (m_dockWidgets s) \<Longrightarrow>
   DockWidgetModel_dockWidgetAt s (DockWidgetModel_indexOf s (Some h)) = Some h"
  using qlist_indexOf_present[of h "m_dockWidgets s"]
  by (simp add: DockWidgetModel_dockWidgetAt_def DockWidgetModel_indexOf_def)

lemma dockWidgetAt_indexOf_absent:
  "h \<notin> set (m_dockWidgets s) \<Longrightarrow>
   DockWidgetModel_dockWidgetAt s (DockWidgetModel_indexOf s (Some h)) = None"
  by (simp add: DockWidgetModel_dockWidgetAt_def DockWidgetModel_indexOf_def
      qlist_indexOf_absent)

lemma dockWidgetAt_indexOf_dockWidgetAt:
  "DockWidgetModel_dockWidgetAt s (DockWidgetModel_indexOf s (DockWidgetModel_dockWidgetAt s i))
     = DockWidgetModel_dockWidgetAt s i"
  using dockWidgetAt_resolved[of s i]
  by (auto simp: dockWidgetAt_indexOf_None dockWidgetAt_indexOf_Some)

lemma emit_simps [simp]:
  "m_dockWidgets (emit e s) = m_dockWidgets s"
  "m_connections (emit e s) = m_connections s"
  "m_currentDockWidget (emit e s) = m_currentDockWidget s"
  "m_removeGuard (emit e s) = m_removeGuard s"
  "qt_connections (emit e s) = qt_connections s"
  "qt_next_conn (emit e s) = qt_next_conn s"
  "events (emit e s) = events s @ [e]"
  by (simp_all add: emit_def)

lemma dockWidgetAt_cong:
  "m_dockWidgets s' = m_dockWidgets s \<Longrightarrow>
   DockWidgetModel_dockWidgetAt s' i = DockWidgetModel_dockWidgetAt s i"
  by (simp add: DockWidgetModel_dockWidgetAt_def)

lemma indexOf_cong:
  "m_dockWidgets s' = m_dockWidgets s \<Longrightarrow>
   DockWidgetModel_indexOf s' dw = DockWidgetModel_indexOf s dw"
  by (cases dw) (simp_all add: DockWidgetModel_indexOf_def)

lemma setCurrentIndex_same:
  "m_currentDockWidget s = DockWidgetModel_dockWidgetAt s i \<Longrightarrow>
   DockWidgetModel_setCurrentIndex i s = s"
  by (simp add: DockWidgetModel_setCurrentIndex.simps)

lemma setCurrentDockWidget_resolved:
  assumes "DockWidgetModel_dockWidgetAt s (DockWidgetModel_indexOf s dw) = dw"
  shows "DockWidgetModel_setCurrentDockWidget dw s =
     s\<lparr>m_currentDockWidget := dw,
       events := events s
         @ (case m_currentDockWidget s of Some cur \<Rightarrow> [SetVisible cur False] | None \<Rightarrow> [])
         @ (case dw of
              Some d \<Rightarrow> [IsSettingCurrentScope d True, SetVisible d True,
                         IsSettingCurrentScope d False]
            | None \<Rightarrow> [])\<rparr>"
proof -
  let ?s1 = "case m_currentDockWidget s of
               Some cur \<Rightarrow> emit (SetVisible cur False) s
             | None \<Rightarrow> s"
  let ?s2 = "?s1\<lparr>m_currentDockWidget := dw\<rparr>"
  have l: "m_dockWidgets ?s2 = m_dockWidgets s"
    by (simp split: option.splits)
  have c: "m_currentDockWidget ?s2 = dw"
    by simp
  have "m_currentDockWidget ?s2 =
      DockWidgetModel_dockWidgetAt ?s2 (DockWidgetModel_indexOf ?s2 dw)"
    using assms c by (simp only: dockWidgetAt_cong[OF l] indexOf_cong[OF l])
  then have noop: "DockWidgetModel_setCurrentIndex (DockWidgetModel_indexOf ?s2 dw) ?s2 = ?s2"
    by (rule setCurrentIndex_same)
  have "DockWidgetModel_setCurrentDockWidget dw s =
      (case m_currentDockWidget ?s2 of
           Some cur \<Rightarrow>
             emit (IsSettingCurrentScope cur False)
               (emit (SetVisible cur True) (emit (IsSettingCurrentScope cur True) ?s2))
         | None \<Rightarrow> ?s2)"
    unfolding DockWidgetModel_setCurrentDockWidget.simps[of dw s] Let_def noop ..
  also have "\<dots> = s\<lparr>m_currentDockWidget := dw,
       events := events s
         @ (case m_currentDockWidget s of Some cur \<Rightarrow> [SetVisible cur False] | None \<Rightarrow> [])
         @ (case dw of
              Some d \<Rightarrow> [IsSettingCurrentScope d True, SetVisible d True,
                         IsSettingCurrentScope d False]
            | None \<Rightarrow> [])\<rparr>"
    by (simp add: emit_def split: option.splits)
  finally show ?thesis .
qed

lemma setCurrentIndex_changes:
  assumes "m_currentDockWidget s \<noteq> DockWidgetModel_dockWidgetAt s i"
  shows "DockWidgetModel_setCurrentIndex i s =
     s\<lparr>m_currentDockWidget := DockWidgetModel_dockWidgetAt s i,
       events := events s
         @ (case m_currentDockWidget s of Some cur \<Rightarrow> [SetVisible cur False] | None \<Rightarrow> [])
         @ (case DockWidgetModel_dockWidgetAt s i of
              Some d \<Rightarrow> [IsSettingCurrentScope d True, SetVisible d True,
                         IsSettingCurrentScope d False]
            | None \<Rightarrow> [])
         @ [TabBarSetCurrentIndex i]\<rparr>"
  using assms
  by (simp add: DockWidgetModel_setCurrentIndex.simps[of i s]
      setCurrentDockWidget_resolved[OF dockWidgetAt_indexOf_dockWidgetAt] emit_def Let_def)

subsection \<open>Closed forms of remove and insert\<close>

lemma fold_qt_disconnect:
  "fold qt_disconnect cs s =
     s\<lparr>qt_connections := filter (\<lambda>c. c \<notin> set cs) (qt_connections s)\<rparr>"
proof (induction cs arbitrary: s)
  case Nil
  then show ?case by simp
next
  case (Cons c cs)
  have "filter (\<lambda>x. x \<notin> set cs) (removeAll c xs) = filter (\<lambda>x. x \<notin> set (c # cs)) xs" for xs
    by (induction xs) auto
  with Cons show ?case by (simp add: qt_disconnect_def)
qed

lemma remove_absent:
  "dw \<notin> set (m_dockWidgets s) \<Longrightarrow> DockWidgetModel_remove dw s = s"
  by (simp add: DockWidgetModel_remove_def DockWidgetModel_indexOf_def qlist_indexOf_absent)

lemma remove_present:
  assumes "dw \<in> set (m_dockWidgets s)"
  shows "DockWidgetModel_remove dw s =
     s\<lparr>m_dockWidgets := qlist_removeOne dw (m_dockWidgets s),
       m_connections := (m_connections s)(dw := None),
       qt_connections :=
         filter (\<lambda>c. c \<notin> set (case m_connections s dw of Some cs \<Rightarrow> cs | None \<Rightarrow> []))
           (qt_connections s),
       events := events s @
         [RowsAboutToBeRemoved (qlist_indexOf (m_dockWidgets s) dw) (qlist_indexOf (m_dockWidgets s) dw),
          RowsRemoved (qlist_indexOf (m_dockWidgets s) dw) (qlist_indexOf (m_dockWidgets s) dw),
          CountChanged, DockWidgetRemoved]\<rparr>"
proof -
  from qlist_indexOf_present(1)[OF assms] have "qlist_indexOf (m_dockWidgets s) dw \<noteq> - 1"
    by simp
  then show ?thesis
    by (simp add: DockWidgetModel_remove_def DockWidgetModel_indexOf_def Let_def
        fold_qt_disconnect emit_def)
qed

lemma remove_fields:
  "m_dockWidgets (DockWidgetModel_remove dw s) = qlist_removeOne dw (m_dockWidgets s)"
  "m_currentDockWidget (DockWidgetModel_remove dw s) = m_currentDockWidget s"
  "m_removeGuard (DockWidgetModel_remove dw s) = m_removeGuard s"
  by (cases "dw \<in> set (m_dockWidgets s)";
      simp add: remove_absent remove_present qlist_removeOne_absent)+

lemma insert_present:
  "dw \<in> set (m_dockWidgets s) \<Longrightarrow>
   DockWidgetModel_insert dw index s = Inr (False, emit (QWarning Shouldnt_happen) s)"
  by (simp add: DockWidgetModel_insert_def)

lemma insert_out_of_range:
  "dw \<notin> set (m_dockWidgets s) \<Longrightarrow> index < 0 \<or> index > int (length (m_dockWidgets s)) \<Longrightarrow>
   DockWidgetModel_insert dw index s = Inl Assert_index_out_of_range"
  by (auto simp add: DockWidgetModel_insert_def qt_connect_def Let_def)

lemma insert_fresh:
  assumes "dw \<notin> set (m_dockWidgets s)" "0 \<le> index" "index \<le> int (length (m_dockWidgets s))"
  shows "DockWidgetModel_insert dw index s =
     Inr (True,
       s\<lparr>m_dockWidgets := qlist_insert (nat index) dw (m_dockWidgets s),
         m_connections := (m_connections s)(dw \<mapsto>
           [Connection (qt_next_conn s) dw TitleChanged (EmitDataChangedFor dw),
            Connection (Suc (qt_next_conn s)) dw Destroyed (Remove dw)]),
         qt_connections := qt_connections s @
           [Connection (qt_next_conn s) dw TitleChanged (EmitDataChangedFor dw),
            Connection (Suc (qt_next_conn s)) dw Destroyed (Remove dw)],
         qt_next_conn := Suc (Suc (qt_next_conn s)),
         events := events s @
           [RowsAboutToBeInserted index index, RowsInserted index index, CountChanged]\<rparr>)"
  using assms
  by (simp add: DockWidgetModel_insert_def qt_connect_def Let_def emit_def)

subsection \<open>The subscription invariant is preserved\<close>

lemma subscribed_iff:
  "subscribed s dw \<longleftrightarrow>
     (\<exists>c c2. m_connections s dw = Some [c, c2] \<and> live_connections_of s dw = [c, c2] \<and>
        conn_signal c = TitleChanged \<and> conn_slot c = EmitDataChangedFor dw \<and>
        conn_signal c2 = Destroyed \<and> conn_slot c2 = Remove dw)"
  by (auto simp: subscribed_def split: option.splits list.splits)

lemma subscribedD:
  assumes "subscribed s dw"
  obtains c c2 where "m_connections s dw = Some [c, c2]"
    "live_connections_of s dw = [c, c2]"
    "conn_signal c = TitleChanged" "conn_slot c = EmitDataChangedFor dw"
    "conn_signal c2 = Destroyed" "conn_slot c2 = Remove dw"
  using assms by (auto simp: subscribed_def split: option.splits list.splits)

lemma model_inv_cong:
  assumes "m_dockWidgets s' = m_dockWidgets s" "m_connections s' = m_connections s"
    "qt_connections s' = qt_connections s"
  shows "model_inv s' = model_inv s"
proof -
  have "live_connections_of s' h = live_connections_of s h" for h
    using assms(3) by (simp add: live_connections_of_def)
  then have "subscribed s' h = subscribed s h" for h
    by (simp add: subscribed_iff assms(2))
  then have "subscribed s' = subscribed s" by (simp add: fun_eq_iff)
  with assms show ?thesis by (simp add: model_inv_def)
qed

lemma model_inv_new: "model_inv DockWidgetModel_new"
  by (simp add: model_inv_def DockWidgetModel_new_def)

lemma model_inv_D:
  assumes "model_inv s"
  shows "distinct (m_dockWidgets s)"
    and "\<And>h. h \<in> set (m_dockWidgets s) \<Longrightarrow> subscribed s h"
    and "\<And>c. c \<in> set (qt_connections s) \<Longrightarrow> conn_sender c \<in> set (m_dockWidgets s)"
  using assms by (auto simp: model_inv_def list_all_iff)

lemma model_inv_I:
  assumes "distinct (m_dockWidgets s)"
    and "\<And>h. h \<in> set (m_dockWidgets s) \<Longrightarrow> subscribed s h"
    and "\<And>c. c \<in> set (qt_connections s) \<Longrightarrow> conn_sender c \<in> set (m_dockWidgets s)"
  shows "model_inv s"
  using assms by (auto simp: model_inv_def list_all_iff)

lemma live_connections_absent:
  assumes "model_inv s" "dw \<notin> set (m_dockWidgets s)"
  shows "live_connections_of s dw = []"
  using model_inv_D(3)[OF assms(1)] assms(2)
  by (auto simp: live_connections_of_def filter_empty_conv)

lemma set_qlist_insert: "set (qlist_insert i x xs) = insert x (set xs)"
  by (induction i x xs rule: qlist_insert.induct) auto

lemma distinct_qlist_insert:
  "distinct xs \<Longrightarrow> x \<notin> set xs \<Longrightarrow> distinct (qlist_insert i x xs)"
  by (induction i x xs rule: qlist_insert.induct) (auto simp: set_qlist_insert)

lemma model_inv_insert_fresh:
  assumes inv: "model_inv s" and fresh: "dw \<notin> set (m_dockWidgets s)"
    and range: "0 \<le> index" "index \<le> int (length (m_dockWidgets s))"
    and res: "DockWidgetModel_insert dw index s = Inr (ok, s')"
  shows "model_inv s'"
proof -
  let ?c = "Connection (qt_next_conn s) dw TitleChanged (EmitDataChangedFor dw)"
  let ?c2 = "Connection (Suc (qt_next_conn s)) dw Destroyed (Remove dw)"
  from res insert_fresh[OF fresh range]
  have l: "m_dockWidgets s' = qlist_insert (nat index) dw (m_dockWidgets s)"
    and m: "m_connections s' = (m_connections s)(dw \<mapsto> [?c, ?c2])"
    and q: "qt_connections s' = qt_connections s @ [?c, ?c2]"
    by auto
  have set': "set (m_dockWidgets s') = insert dw (set (m_dockWidgets s))"
    by (simp add: l set_qlist_insert)
  show ?thesis
  proof (rule model_inv_I)
    show "distinct (m_dockWidgets s')"
      using distinct_qlist_insert[OF model_inv_D(1)[OF inv] fresh] l by simp
  next
    fix h assume "h \<in> set (m_dockWidgets s')"
    then consider "h = dw" | "h \<noteq> dw" "h \<in> set (m_dockWidgets s)"
      using set' by auto
    then show "subscribed s' h"
    proof cases
      case 1
      with live_connections_absent[OF inv fresh] show ?thesis
        by (simp add: subscribed_iff m q live_connections_of_def)
    next
      case 2
      from model_inv_D(2)[OF inv 2(2)] 2(1) show ?thesis
        by (simp add: subscribed_iff m q live_connections_of_def)
    qed
  next
    fix c assume "c \<in> set (qt_connections s')"
    with q model_inv_D(3)[OF inv] set' show "conn_sender c \<in> set (m_dockWidgets s')"
      by auto
  qed
qed

lemma model_inv_insert:
  assumes inv: "model_inv s" and res: "DockWidgetModel_insert dw index s = Inr (ok, s')"
  shows "model_inv s'"
proof (cases "dw \<in> set (m_dockWidgets s)")
  case True
  with res have "s' = emit (QWarning Shouldnt_happen) s" by (simp add: insert_present)
  then have "model_inv s' = model_inv s" by (intro model_inv_cong) simp_all
  with inv show ?thesis by simp
next
  case False
  show ?thesis
  proof (cases "0 \<le> index \<and> index \<le> int (length (m_dockWidgets s))")
    case True
    with model_inv_insert_fresh[OF inv False _ _ res] show ?thesis by simp
  next
    case False
    with insert_out_of_range[OF \<open>dw \<notin> set (m_dockWidgets s)\<close>, of index] res
    show ?thesis by auto
  qed
qed

lemma model_inv_remove:
  assumes inv: "model_inv s"
  shows "model_inv (DockWidgetModel_remove dw s)"
proof (cases "dw \<in> set (m_dockWidgets s)")
  case False
  with inv show ?thesis by (simp add: remove_absent)
next
  case True
  let ?s' = "DockWidgetModel_remove dw s"
  from model_inv_D(2)[OF inv True] obtain c c2 where
    mc: "m_connections s dw = Some [c, c2]" and live: "live_connections_of s dw = [c, c2]"
    by (rule subscribedD)
  have l: "m_dockWidgets ?s' = filter (\<lambda>y. y \<noteq> dw) (m_dockWidgets s)"
    by (simp add: remove_present[OF True] qlist_removeOne_distinct[OF model_inv_D(1)[OF inv]])
  have m: "m_connections ?s' = (m_connections s)(dw := None)"
    by (simp add: remove_present[OF True])
  have q: "qt_connections ?s' = filter (\<lambda>x. x \<notin> set [c, c2]) (qt_connections s)"
    by (simp add: remove_present[OF True] mc)
  have gone: "x \<in> set [c, c2]" if "x \<in> set (qt_connections s)" "conn_sender x = dw" for x
  proof -
    from that have "x \<in> set (live_connections_of s dw)"
      by (simp add: live_connections_of_def)
    then show ?thesis by (simp only: live)
  qed
  have theirs: "conn_sender x = dw" if "x \<in> set [c, c2]" for x
  proof -
    from that have "x \<in> set (live_connections_of s dw)" by (simp only: live)
    then show ?thesis by (simp add: live_connections_of_def)
  qed
  show ?thesis
  proof (rule model_inv_I)
    show "distinct (m_dockWidgets ?s')" using model_inv_D(1)[OF inv] l by simp
  next
    fix h assume "h \<in> set (m_dockWidgets ?s')"
    with l have h: "h \<noteq> dw" "h \<in> set (m_dockWidgets s)" by auto
    have "filter (\<lambda>x. conn_sender x = h) (filter (\<lambda>x. x \<notin> set [c, c2]) (qt_connections s))
        = filter (\<lambda>x. conn_sender x = h) (qt_connections s)"
      unfolding filter_filter using theirs h(1) by (intro filter_cong) auto
    then have "live_connections_of ?s' h = live_connections_of s h"
      by (simp add: q live_connections_of_def)
    with model_inv_D(2)[OF inv h(2)] h(1) show "subscribed ?s' h"
      by (simp add: subscribed_iff m)
  next
    fix x assume "x \<in> set (qt_connections ?s')"
    with q have x: "x \<in> set (qt_connections s)" "x \<notin> set [c, c2]" by auto
    with gone have "conn_sender x \<noteq> dw" by blast
    with model_inv_D(3)[OF inv x(1)] l show "conn_sender x \<in> set (m_dockWidgets ?s')"
      by simp
  qed
qed

subsection \<open>Signals of a dock widget\<close>

lemma emitted_append: "events s' = events s @ es \<Longrightarrow> emitted s s' = es"
  by (simp add: emitted_def)

lemma emitted_same: "emitted s s = []"
  by (simp add: emitted_def)

lemma destroyed_present:
  assumes inv: "model_inv s" and mem: "dw \<in> set (m_dockWidgets s)"
  shows "destroyed dw s = DockWidgetModel_remove dw s"
proof -
  let ?s' = "DockWidgetModel_remove dw s"
  from model_inv_D(2)[OF inv mem] obtain c c2 where
    live: "live_connections_of s dw = [c, c2]"
    and c: "conn_signal c = TitleChanged"
    and c2: "conn_signal c2 = Destroyed" "conn_slot c2 = Remove dw"
    by (rule subscribedD)
  have "filter (\<lambda>x. conn_sender x = dw \<and> conn_signal x = Destroyed) (qt_connections s)
      = filter (\<lambda>x. conn_signal x = Destroyed) (live_connections_of s dw)"
    by (simp add: live_connections_of_def)
  also have "\<dots> = [c2]" using c c2 by (simp add: live)
  finally have act: "filter (\<lambda>x. conn_sender x = dw \<and> conn_signal x = Destroyed)
      (qt_connections s) = [c2]" .
  have "c2 \<in> set (live_connections_of s dw)" by (simp add: live)
  then have "c2 \<in> set (qt_connections s)" by (simp add: live_connections_of_def)
  with c2 have run: "qt_activate [c2] s = ?s'" by simp
  have "dw \<notin> set (m_dockWidgets ?s')"
    using model_inv_D(1)[OF inv]
    by (simp add: remove_fields qlist_removeOne_distinct)
  with model_inv_D(3)[OF model_inv_remove[OF inv, of dw]]
  have "filter (\<lambda>x. conn_sender x \<noteq> dw) (qt_connections ?s') = qt_connections ?s'"
    by (auto simp: filter_id_conv)
  then show ?thesis unfolding destroyed_def act run Let_def by simp
qed

lemma destroyed_absent:
  assumes inv: "model_inv s" and "dw \<notin> set (m_dockWidgets s)"
  shows "destroyed dw s = s"
proof -
  from model_inv_D(3)[OF inv] assms(2)
  have no: "\<And>c. c \<in> set (qt_connections s) \<Longrightarrow> conn_sender c \<noteq> dw" by auto
  then have "filter (\<lambda>x. conn_sender x = dw \<and> conn_signal x = Destroyed) (qt_connections s) = []"
    by (auto simp: filter_empty_conv)
  moreover from no have "filter (\<lambda>x. conn_sender x \<noteq> dw) (qt_connections s) = qt_connections s"
    by (auto simp: filter_id_conv)
  ultimately show ?thesis by (simp add: destroyed_def)
qed

lemma model_inv_destroyed: "model_inv s \<Longrightarrow> model_inv (destroyed dw s)"
  by (cases "dw \<in> set (m_dockWidgets s)")
    (simp_all add: destroyed_present destroyed_absent model_inv_remove)

lemma titleChanged_present:
  assumes inv: "model_inv s" and mem: "dw \<in> set (m_dockWidgets s)"
  shows "titleChanged dw s = DockWidgetModel_emitDataChangedFor dw s"
proof -
  from model_inv_D(2)[OF inv mem] obtain c c2 where
    live: "live_connections_of s dw = [c, c2]"
    and c: "conn_signal c = TitleChanged" "conn_slot c = EmitDataChangedFor dw"
    and c2: "conn_signal c2 = Destroyed"
    by (rule subscribedD)
  have "filter (\<lambda>x. conn_sender x = dw \<and> conn_signal x = TitleChanged) (qt_connections s)
      = filter (\<lambda>x. conn_signal x = TitleChanged) (live_connections_of s dw)"
    by (simp add: live_connections_of_def)
  also have "\<dots> = [c]" using c c2 by (simp add: live)
  finally have act: "filter (\<lambda>x. conn_sender x = dw \<and> conn_signal x = TitleChanged)
      (qt_connections s) = [c]" .
  have "c \<in> set (live_connections_of s dw)" by (simp add: live)
  then have "c \<in> set (qt_connections s)" by (simp add: live_connections_of_def)
  with c show ?thesis by (simp add: titleChanged_def act)
qed

lemma model_inv_setCurrentIndex:
  "model_inv (DockWidgetModel_setCurrentIndex i s) = model_inv s"
proof (cases "m_currentDockWidget s = DockWidgetModel_dockWidgetAt s i")
  case True
  then show ?thesis by (simp add: setCurrentIndex_same)
next
  case False
  show ?thesis
    by (rule model_inv_cong) (simp_all add: setCurrentIndex_changes[OF False])
qed

subsection \<open>Further facts used by the claims\<close>

lemma count_list_distinct: "distinct xs \<Longrightarrow> x \<in> set xs \<Longrightarrow> count_list xs x = 1"
  by (induction xs) auto

lemma tabs_1_2_current_2_fields:
  "m_dockWidgets tabs_1_2_current_2 = [1, 2]"
  "m_currentDockWidget tabs_1_2_current_2 = Some 2"
  by code_simp+

lemma tabs_1_2_current_2_not_removing: "\<not> m_removeGuard tabs_1_2_current_2"
  by code_simp

lemma inside_remove_fields:
  "m_dockWidgets inside_remove = [1, 2]"
  "m_removeGuard inside_remove"
  by code_simp+

lemma setCurrentDockWidget_absent:
  assumes "h \<notin> set (m_dockWidgets s)"
  shows "DockWidgetModel_setCurrentDockWidget (Some h) s =
     s\<lparr>m_currentDockWidget := None,
       events := events s
         @ (case m_currentDockWidget s of Some cur \<Rightarrow> [SetVisible cur False] | None \<Rightarrow> [])
         @ [SetVisible h False, TabBarSetCurrentIndex (- 1)]\<rparr>"
proof -
  let ?s1 = "case m_currentDockWidget s of
               Some cur \<Rightarrow> emit (SetVisible cur False) s
             | None \<Rightarrow> s"
  let ?s2 = "?s1\<lparr>m_currentDockWidget := Some h\<rparr>"
  have l: "m_dockWidgets ?s2 = m_dockWidgets s"
    by (simp split: option.splits)
  have idx: "DockWidgetModel_indexOf ?s2 (Some h) = - 1"
    using assms by (simp add: DockWidgetModel_indexOf_def l qlist_indexOf_absent)
  have at: "DockWidgetModel_dockWidgetAt ?s2 (- 1) = None"
    by (simp add: DockWidgetModel_dockWidgetAt_def)
  then have "m_currentDockWidget ?s2 \<noteq> DockWidgetModel_dockWidgetAt ?s2 (- 1)"
    by simp
  from setCurrentIndex_changes[OF this]
  have inner: "DockWidgetModel_setCurrentIndex (- 1) ?s2 =
      ?s2\<lparr>m_currentDockWidget := None,
        events := events ?s2 @ [SetVisible h False, TabBarSetCurrentIndex (- 1)]\<rparr>"
    by (simp add: at)
  have "DockWidgetModel_setCurrentDockWidget (Some h) s =
      ?s2\<lparr>m_currentDockWidget := None,
        events := events ?s2 @ [SetVisible h False, TabBarSetCurrentIndex (- 1)]\<rparr>"
    unfolding DockWidgetModel_setCurrentDockWidget.simps[of "Some h" s] Let_def idx inner
    by simp
  also have "\<dots> = s\<lparr>m_currentDockWidget := None,
       events := events s
         @ (case m_currentDockWidget s of Some cur \<Rightarrow> [SetVisible cur False] | None \<Rightarrow> [])
         @ [SetVisible h False, TabBarSetCurrentIndex (- 1)]\<rparr>"
    by (simp add: emit_def split: option.splits)
  finally show ?thesis .
qed

lemma current_inv_iff:
  "current_inv s \<longleftrightarrow> (\<forall>cur. m_currentDockWidget s = Some cur \<longrightarrow> cur \<in> set (m_dockWidgets s))"
  by (simp add: current_inv_def DockWidgetModel_currentIndex_def split: option.splits)

lemma current_inv_setCurrentIndex: "current_inv (DockWidgetModel_setCurrentIndex index s)"
proof -
  let ?s' = "DockWidgetModel_setCurrentIndex index s"
  have "m_currentDockWidget ?s' = DockWidgetModel_dockWidgetAt s index"
    "m_dockWidgets ?s' = m_dockWidgets s"
    by (cases "m_currentDockWidget s = DockWidgetModel_dockWidgetAt s index";
        simp add: setCurrentIndex_same setCurrentIndex_changes)+
  with dockWidgetAt_resolved[of s index] show ?thesis
    by (auto simp: current_inv_iff)
qed

lemma current_inv_setCurrentDockWidget:
  "current_inv (DockWidgetModel_setCurrentDockWidget p s)"
proof (cases "DockWidgetModel_dockWidgetAt s (DockWidgetModel_indexOf s p) = p")
  case True
  have "p = None \<or> (\<exists>h \<in> set (m_dockWidgets s). p = Some h)"
    using dockWidgetAt_resolved[of s "DockWidgetModel_indexOf s p"] True by simp
  then show ?thesis
    by (auto simp: current_inv_iff setCurrentDockWidget_resolved[OF True])
next
  case False
  show ?thesis
  proof (cases p)
    case None
    with False show ?thesis by (simp add: dockWidgetAt_indexOf_None)
  next
    case (Some h)
    with False have "h \<notin> set (m_dockWidgets s)"
      using dockWidgetAt_indexOf_Some[of h s] by auto
    with Some show ?thesis
      by (simp add: current_inv_iff setCurrentDockWidget_absent)
  qed
qed

lemma current_inv_insert:
  assumes "current_inv s" "DockWidgetModel_insert dw index s = Inr (ok, s')"
  shows "current_inv s'"
proof (cases "dw \<in> set (m_dockWidgets s)")
  case True
  with assms show ?thesis by (auto simp: insert_present current_inv_iff)
next
  case False
  show ?thesis
  proof (cases "0 \<le> index \<and> index \<le> int (length (m_dockWidgets s))")
    case True
    with insert_fresh[OF False, of index] assms show ?thesis
      by (auto simp: current_inv_iff set_qlist_insert)
  next
    case range: False
    with insert_out_of_range[OF False, of index] assms(2) show ?thesis by auto
  qed
qed

lemma set_qlist_removeOne:
  "y \<noteq> x \<Longrightarrow> y \<in> set xs \<Longrightarrow> y \<in> set (qlist_removeOne x xs)"
  by (induction xs) auto

lemma current_inv_remove:
  assumes "current_inv s" "m_currentDockWidget s \<noteq> Some dw"
  shows "current_inv (DockWidgetModel_remove dw s)"
  using assms by (auto simp: current_inv_iff remove_fields intro: set_qlist_removeOne)

lemma tab_1_current_fields:
  "m_dockWidgets tab_1_current = [1]"
  "m_currentDockWidget tab_1_current = Some 1"
  by code_simp+

lemma model_inv_setCurrentDockWidget:
  "model_inv (DockWidgetModel_setCurrentDockWidget p s) = model_inv s"
proof (cases "DockWidgetModel_dockWidgetAt s (DockWidgetModel_indexOf s p) = p")
  case True
  show ?thesis
    by (rule model_inv_cong) (simp_all add: setCurrentDockWidget_resolved[OF True])
next
  case False
  then obtain h where "p = Some h" "h \<notin> set (m_dockWidgets s)"
    using dockWidgetAt_indexOf_None[of s] dockWidgetAt_indexOf_Some[of _ s]
    by (cases p) auto
  then show ?thesis
    by (intro model_inv_cong) (simp_all add: setCurrentDockWidget_absent)
qed

lemma model_inv_titleChanged:
  assumes "model_inv s"
  shows "model_inv (titleChanged dw s)"
proof (cases "dw \<in> set (m_dockWidgets s)")
  case True
  have "model_inv (DockWidgetModel_emitDataChangedFor dw s) = model_inv s"
    by (rule model_inv_cong) (simp_all add: DockWidgetModel_emitDataChangedFor_def Let_def)
  with assms show ?thesis by (simp add: titleChanged_present[OF assms True])
next
  case False
  from model_inv_D(3)[OF assms] False
  have "filter (\<lambda>c. conn_sender c = dw \<and> conn_signal c = TitleChanged) (qt_connections s) = []"
    by (auto simp: filter_empty_conv)
  with assms show ?thesis by (simp add: titleChanged_def)
qed

lemma model_inv_run_ops:
  "model_inv s \<Longrightarrow> run_ops ops s = Inr s' \<Longrightarrow> model_inv s'"
proof (induction ops arbitrary: s)
  case Nil
  then show ?case by simp
next
  case (Cons x ops)
  from Cons.prems(2) obtain s1 where s1: "apply_op x s = Inr s1" "run_ops ops s1 = Inr s'"
    by (auto split: sum.splits)
  have "model_inv s1"
  proof (cases x)
    case (Op_insert h i)
    with s1(1) obtain ok where "DockWidgetModel_insert h i s = Inr (ok, s1)"
      by (auto split: sum.splits)
    then show ?thesis by (rule model_inv_insert[OF Cons.prems(1)])
  next
    case (Op_remove h)
    with s1(1) Cons.prems(1) show ?thesis by (auto intro: model_inv_remove)
  qed
  then show ?case using s1(2) by (rule Cons.IH)
qed

lemma model_inv_tabs_1_2_current_2: "model_inv tabs_1_2_current_2"
  unfolding tabs_1_2_current_2_def model_inv_setCurrentIndex by code_simp

lemma model_inv_tab_1_current: "model_inv tab_1_current"
  unfolding tab_1_current_def model_inv_setCurrentIndex by code_simp

lemma indexOf_eq_position:
  "DockWidgetModel_indexOf s (Some h) = spec_position (m_dockWidgets s) h"
  by (simp add: DockWidgetModel_indexOf_def qlist_indexOf_eq_position)

lemma spec_position_nth:
  assumes "h \<in> set xs"
  shows "0 \<le> spec_position xs h" "spec_position xs h < int (length xs)"
    "xs ! nat (spec_position xs h) = h"
  using qlist_indexOf_present[OF assms] by (simp_all add: qlist_indexOf_eq_position)

lemma run_ops_refines:
  assumes "distinct (inserted_handles ops)"
    "set (inserted_handles ops) \<inter> set (m_dockWidgets s) = {}"
    "distinct (m_dockWidgets s)"
    "indices_in_range ops (m_dockWidgets s)"
  shows "\<exists>s'. run_ops ops s = Inr s' \<and> m_dockWidgets s' = spec_run ops (m_dockWidgets s)
            \<and> distinct (m_dockWidgets s')"
  using assms
proof (induction ops arbitrary: s)
  case Nil
  then show ?case by simp
next
  case (Cons x ops)
  show ?case
  proof (cases x)
    case (Op_insert h i)
    with Cons.prems have fresh: "h \<notin> set (m_dockWidgets s)"
      and range: "0 \<le> i" "i \<le> int (length (m_dockWidgets s))"
      by auto
    from insert_fresh[OF fresh range]
    obtain s1 where step: "DockWidgetModel_insert h i s = Inr (True, s1)"
      and l: "m_dockWidgets s1 = qlist_insert (nat i) h (m_dockWidgets s)"
      by simp
    from range have l': "m_dockWidgets s1 = spec_splice_in (m_dockWidgets s) i h"
      by (simp add: l qlist_insert_eq spec_splice_in_def)
    have d: "distinct (m_dockWidgets s1)"
      using Cons.prems(3) fresh by (simp add: l distinct_qlist_insert)
    have "set (inserted_handles ops) \<inter> set (m_dockWidgets s1) = {}"
      using Cons.prems(1,2) Op_insert by (auto simp: l set_qlist_insert)
    moreover have "distinct (inserted_handles ops)"
      using Cons.prems(1) Op_insert by simp
    moreover have "indices_in_range ops (m_dockWidgets s1)"
      using Cons.prems(4) Op_insert by (simp add: l')
    ultimately obtain s' where "run_ops ops s1 = Inr s'"
      "m_dockWidgets s' = spec_run ops (m_dockWidgets s1)" "distinct (m_dockWidgets s')"
      using Cons.IH[of s1] d by blast
    then show ?thesis
      using Op_insert step by (simp add: l')
  next
    case (Op_remove h)
    let ?s1 = "DockWidgetModel_remove h s"
    have l: "m_dockWidgets ?s1 = spec_delete (m_dockWidgets s) h"
      by (simp add: remove_fields spec_delete_def qlist_removeOne_distinct[OF Cons.prems(3)])
    have d: "distinct (m_dockWidgets ?s1)"
      using Cons.prems(3) by (simp add: l spec_delete_def)
    have "set (inserted_handles ops) \<inter> set (m_dockWidgets ?s1) = {}"
      using Cons.prems(2) Op_remove by (auto simp: l spec_delete_def)
    moreover have "distinct (inserted_handles ops)"
      using Cons.prems(1) Op_remove by simp
    moreover have "indices_in_range ops (m_dockWidgets ?s1)"
      using Cons.prems(4) Op_remove by (simp add: l)
    ultimately obtain s' where "run_ops ops ?s1 = Inr s'"
      "m_dockWidgets s' = spec_run ops (m_dockWidgets ?s1)" "distinct (m_dockWidgets s')"
      using Cons.IH[of ?s1] d by blast
    then show ?thesis
      using Op_remove by (simp add: l)
  qed
qed

section \<open>The claims\<close>

subsection \<open>C1: the invariant of the current dock widget\<close>

text \<open>
  Claim C1, as amended. At most one handle is current at any time, and \<^verbatim>\<open>currentIndex()\<close>
  is \<open>-1\<close> when none is. That the current dock widget, when set, is an element of the
  sequence is preserved by \<^verbatim>\<open>insert\<close>, is established by every \<^verbatim>\<open>setCurrentIndex\<close> and
  \<^verbatim>\<open>setCurrentDockWidget\<close>, and is preserved by \<^verbatim>\<open>remove(h)\<close> and by the removal that the
  destruction of \<open>h\<close> triggers whenever \<open>h\<close> is not the current dock widget.
  \<^verbatim>\<open>remove\<close> never touches \<^verbatim>\<open>m_currentDockWidget\<close>: resetting the selection when the
  current tab goes away is left to the caller.
\<close>

theorem current_inv_preserved:
  "(is_current s h \<longrightarrow> is_current s h' \<longrightarrow> h = h') \<and>
   (m_currentDockWidget s = None \<longrightarrow> fst (DockWidgetModel_currentIndex s) = - 1) \<and>
   (current_inv s \<longrightarrow>
      (case DockWidgetModel_insert dw index s of
         Inl e \<Rightarrow> True
       | Inr (ok, s') \<Rightarrow> current_inv s')) \<and>
   current_inv (DockWidgetModel_setCurrentIndex index s) \<and>
   current_inv (DockWidgetModel_setCurrentDockWidget p s) \<and>
   (current_inv s \<longrightarrow> \<not> is_current s dw \<longrightarrow> current_inv (DockWidgetModel_remove dw s)) \<and>
   (model_inv s \<longrightarrow> current_inv s \<longrightarrow> \<not> is_current s dw \<longrightarrow> current_inv (destroyed dw s)) \<and>
   m_currentDockWidget (DockWidgetModel_remove dw s) = m_currentDockWidget s"
proof -
  have one: "is_current s h \<longrightarrow> is_current s h' \<longrightarrow> h = h'"
    by (simp add: is_current_def)
  have none: "m_currentDockWidget s = None \<longrightarrow> fst (DockWidgetModel_currentIndex s) = - 1"
    by (simp add: DockWidgetModel_currentIndex_def)
  have ins: "current_inv s \<longrightarrow>
      (case DockWidgetModel_insert dw index s of
         Inl e \<Rightarrow> True
       | Inr (ok, s') \<Rightarrow> current_inv s')"
    by (auto split: sum.splits intro: current_inv_insert)
  have rem: "current_inv s \<longrightarrow> \<not> is_current s dw \<longrightarrow> current_inv (DockWidgetModel_remove dw s)"
    by (simp add: is_current_def current_inv_remove)
  have des: "model_inv s \<longrightarrow> current_inv s \<longrightarrow> \<not> is_current s dw \<longrightarrow>
      current_inv (destroyed dw s)"
    by (cases "dw \<in> set (m_dockWidgets s)")
      (simp_all add: destroyed_present destroyed_absent is_current_def current_inv_remove)
  from one none ins rem des current_inv_setCurrentIndex current_inv_setCurrentDockWidget
  show ?thesis by (simp only: remove_fields simp_thms)
qed

theorem current_inv_preserved_witness:
  "is_current tabs_1_2_current_2 2 \<and> current_inv tabs_1_2_current_2 \<and>
   model_inv tabs_1_2_current_2 \<and> \<not> is_current tabs_1_2_current_2 1 \<and>
   m_currentDockWidget DockWidgetModel_new = None \<and>
   fst (DockWidgetModel_currentIndex DockWidgetModel_new) = - 1 \<and>
   (case DockWidgetModel_insert 3 0 tabs_1_2_current_2 of
      Inl e \<Rightarrow> False
    | Inr (ok, s') \<Rightarrow> ok \<and> current_inv s') \<and>
   current_inv (DockWidgetModel_setCurrentIndex 0 tabs_1_2_current_2) \<and>
   current_inv (DockWidgetModel_setCurrentDockWidget (Some 7) tabs_1_2_current_2) \<and>
   current_inv (DockWidgetModel_remove 1 tabs_1_2_current_2) \<and>
   current_inv (destroyed 1 tabs_1_2_current_2) \<and>
   m_currentDockWidget (DockWidgetModel_remove 1 tabs_1_2_current_2) = Some 2"
proof -
  have c: "is_current tabs_1_2_current_2 2" "\<not> is_current tabs_1_2_current_2 1"
    by (simp_all add: is_current_def tabs_1_2_current_2_fields)
  have i: "current_inv tabs_1_2_current_2"
    by (simp add: current_inv_iff tabs_1_2_current_2_fields)
  note m = model_inv_tabs_1_2_current_2
  have n: "m_currentDockWidget DockWidgetModel_new = None" by (simp add: DockWidgetModel_new_def)
  have ok: "DockWidgetModel_insert 3 0 tabs_1_2_current_2 =
      Inr (True, snd (projr (DockWidgetModel_insert 3 0 tabs_1_2_current_2)))"
    using insert_fresh[of 3 tabs_1_2_current_2 0] by (simp add: tabs_1_2_current_2_fields)
  from current_inv_preserved[where s = tabs_1_2_current_2 and h = 2 and h' = 2 and dw = 3
        and index = 0 and p = "Some 7"]
    current_inv_preserved[where s = tabs_1_2_current_2 and h = 2 and h' = 2 and dw = 1
        and index = 0 and p = "Some 7"]
    current_inv_preserved[where s = DockWidgetModel_new and h = 2 and h' = 2 and dw = 1
        and index = 0 and p = "Some 7"]
    c i m n ok
  show ?thesis by (auto simp: tabs_1_2_current_2_fields split: sum.splits)
qed

text \<open>
  The claim as it was stated covers every \<^verbatim>\<open>remove\<close>. Removing the only tab while it is
  current, by a call or through its destruction, leaves \<^verbatim>\<open>m_currentDockWidget\<close> pointing
  at a dock widget that is no longer in the sequence.
\<close>

theorem current_inv_broken_counterexample:
  "current_inv tab_1_current \<and> model_inv tab_1_current \<and>
   \<not> current_inv (DockWidgetModel_remove 1 tab_1_current) \<and>
   \<not> current_inv (destroyed 1 tab_1_current)"
proof -
  note f = tab_1_current_fields
  note m = model_inv_tab_1_current
  have mem: "1 \<in> set (m_dockWidgets tab_1_current)" by (simp add: f)
  have d: "destroyed 1 tab_1_current = DockWidgetModel_remove 1 tab_1_current"
    by (rule destroyed_present[OF m mem])
  show ?thesis
    unfolding d by (simp add: m current_inv_iff remove_fields f)
qed

subsection \<open>C2: the warning of a nested remove\<close>

text \<open>
  Claim C2, as amended. Let \<^verbatim>\<open>remove(h)\<close> be called for a handle that is not in the
  sequence. If the call occurs while a \<^verbatim>\<open>remove\<close> is already in progress (the guard flag
  is set), whether that \<^verbatim>\<open>remove\<close> runs for the same handle or for a different cause, no
  warning is reported: the reentrancy guard suppresses it, nothing is logged and the state
  is left as it was found. In all cases, nested or not, the call completes without
  failure: it returns with the sequence and the current dock widget unchanged and the
  guard flag restored to the value it had on entry.
\<close>

theorem remove_absent_nested_no_warning:
  assumes "dw \<notin> set (m_dockWidgets s)"
  shows "(m_removeGuard s \<longrightarrow>
            (\<forall>w. QWarning w \<notin> set (emitted s (DockWidgetModel_remove dw s))) \<and>
            emitted s (DockWidgetModel_remove dw s) = [] \<and>
            DockWidgetModel_remove dw s = s) \<and>
         m_dockWidgets (DockWidgetModel_remove dw s) = m_dockWidgets s \<and>
         m_currentDockWidget (DockWidgetModel_remove dw s) = m_currentDockWidget s \<and>
         m_removeGuard (DockWidgetModel_remove dw s) = m_removeGuard s"
  using assms by (simp add: remove_absent emitted_same)

theorem remove_absent_nested_no_warning_witness:
  "9 \<notin> set (m_dockWidgets inside_remove) \<and> m_removeGuard inside_remove \<and>
   emitted inside_remove (DockWidgetModel_remove 9 inside_remove) = [] \<and>
   DockWidgetModel_remove 9 inside_remove = inside_remove \<and>
   m_removeGuard (DockWidgetModel_remove 9 inside_remove) \<and>
   9 \<notin> set (m_dockWidgets tabs_1_2_current_2) \<and> \<not> m_removeGuard tabs_1_2_current_2 \<and>
   m_dockWidgets (DockWidgetModel_remove 9 tabs_1_2_current_2) = [1, 2] \<and>
   m_currentDockWidget (DockWidgetModel_remove 9 tabs_1_2_current_2) = Some 2 \<and>
   \<not> m_removeGuard (DockWidgetModel_remove 9 tabs_1_2_current_2)"
proof -
  have g: "m_removeGuard inside_remove" by (rule inside_remove_fields)
  have a: "9 \<notin> set (m_dockWidgets inside_remove)" by (simp add: inside_remove_fields)
  have g': "\<not> m_removeGuard tabs_1_2_current_2" by (rule tabs_1_2_current_2_not_removing)
  have a': "9 \<notin> set (m_dockWidgets tabs_1_2_current_2)"
    by (simp add: tabs_1_2_current_2_fields)
  from remove_absent_nested_no_warning[OF a] remove_absent_nested_no_warning[OF a'] g a g' a'
  show ?thesis by (simp add: tabs_1_2_current_2_fields emitted_same)
qed

text \<open>
  The claim as it was stated asks for the warning when the call occurs while a \<^verbatim>\<open>remove\<close>
  is in progress for a different cause. In \<open>inside_remove\<close> a \<^verbatim>\<open>remove(3)\<close> is in progress;
  a slot that then calls \<^verbatim>\<open>remove(9)\<close>, for a dock widget that was never a tab, makes a
  nested call for a different cause with the handle absent, and no warning is reported.
\<close>

theorem remove_absent_nested_warning_counterexample:
  "9 \<notin> set (m_dockWidgets inside_remove) \<and> m_removeGuard inside_remove \<and>
   QWarning (Nothing_to_remove 9)
     \<notin> set (emitted inside_remove (DockWidgetModel_remove 9 inside_remove)) \<and>
   emitted inside_remove (DockWidgetModel_remove 9 inside_remove) = []"
proof -
  have a: "9 \<notin> set (m_dockWidgets inside_remove)" by (simp add: inside_remove_fields)
  then show ?thesis by (simp add: inside_remove_fields remove_absent emitted_same)
qed

subsection \<open>C3: the current index after selecting\<close>

text \<open>
  Claim C3. In every state whose sequence has no duplicates: after \<^verbatim>\<open>setCurrentIndex(i)\<close>
  with \<open>0 \<le> i < count\<close>, \<^verbatim>\<open>currentIndex()\<close> returns \<open>i\<close>; after \<^verbatim>\<open>setCurrentIndex(i)\<close>
  with \<open>i\<close> negative or at least \<open>count\<close>, \<^verbatim>\<open>currentIndex()\<close> returns \<open>-1\<close>, and if there
  was a current dock widget before, the call hid it with \<^verbatim>\<open>setVisible(false)\<close> (and showed
  nothing) before it told the controller the index.
\<close>

theorem setCurrentIndex_then_currentIndex:
  assumes "distinct (m_dockWidgets s)"
  shows "(0 \<le> i \<and> i < DockWidgetModel_count s \<longrightarrow>
            fst (DockWidgetModel_currentIndex (DockWidgetModel_setCurrentIndex i s)) = i) \<and>
         (i < 0 \<or> DockWidgetModel_count s \<le> i \<longrightarrow>
            fst (DockWidgetModel_currentIndex (DockWidgetModel_setCurrentIndex i s)) = - 1 \<and>
            emitted s (DockWidgetModel_setCurrentIndex i s) =
              (case m_currentDockWidget s of
                 None \<Rightarrow> []
               | Some prev \<Rightarrow> [SetVisible prev False, TabBarSetCurrentIndex i]))"
proof -
  let ?s' = "DockWidgetModel_setCurrentIndex i s"
  have cur: "m_currentDockWidget ?s' = DockWidgetModel_dockWidgetAt s i"
    by (cases "m_currentDockWidget s = DockWidgetModel_dockWidgetAt s i")
      (simp_all add: setCurrentIndex_same setCurrentIndex_changes)
  have l: "m_dockWidgets ?s' = m_dockWidgets s"
    by (cases "m_currentDockWidget s = DockWidgetModel_dockWidgetAt s i")
      (simp_all add: setCurrentIndex_same setCurrentIndex_changes)
  have valid: "fst (DockWidgetModel_currentIndex ?s') = i"
    if "0 \<le> i" "i < DockWidgetModel_count s"
  proof -
    from that have n: "nat i < length (m_dockWidgets s)"
      by (simp add: DockWidgetModel_count_def)
    from that have "m_currentDockWidget ?s' = Some (m_dockWidgets s ! nat i)"
      by (simp add: cur DockWidgetModel_dockWidgetAt_def DockWidgetModel_count_def)
    then show ?thesis
      using qlist_indexOf_nth[OF assms n] that(1)
      by (simp add: DockWidgetModel_currentIndex_def l Let_def)
  qed
  have invalid: "fst (DockWidgetModel_currentIndex ?s') = - 1 \<and>
      emitted s ?s' = (case m_currentDockWidget s of
                 None \<Rightarrow> []
               | Some prev \<Rightarrow> [SetVisible prev False, TabBarSetCurrentIndex i])"
    if "i < 0 \<or> DockWidgetModel_count s \<le> i"
  proof -
    from that have at: "DockWidgetModel_dockWidgetAt s i = None"
      by (auto simp: DockWidgetModel_dockWidgetAt_def DockWidgetModel_count_def)
    then have "fst (DockWidgetModel_currentIndex ?s') = - 1"
      by (simp add: DockWidgetModel_currentIndex_def cur)
    moreover have "emitted s ?s' = (case m_currentDockWidget s of
                 None \<Rightarrow> []
               | Some prev \<Rightarrow> [SetVisible prev False, TabBarSetCurrentIndex i])"
    proof (cases "m_currentDockWidget s")
      case None
      with at show ?thesis by (simp add: setCurrentIndex_same emitted_same)
    next
      case (Some prev)
      with at have "m_currentDockWidget s \<noteq> DockWidgetModel_dockWidgetAt s i" by simp
      from setCurrentIndex_changes[OF this] Some at show ?thesis
        by (simp add: emitted_def)
    qed
    ultimately show ?thesis ..
  qed
  from valid invalid show ?thesis by blast
qed

theorem setCurrentIndex_then_currentIndex_witness:
  "distinct (m_dockWidgets tabs_1_2_current_2) \<and>
   0 \<le> (0::int) \<and> 0 < DockWidgetModel_count tabs_1_2_current_2 \<and>
   fst (DockWidgetModel_currentIndex (DockWidgetModel_setCurrentIndex 0 tabs_1_2_current_2)) = 0 \<and>
   DockWidgetModel_count tabs_1_2_current_2 \<le> 2 \<and>
   fst (DockWidgetModel_currentIndex (DockWidgetModel_setCurrentIndex 2 tabs_1_2_current_2)) = - 1 \<and>
   emitted tabs_1_2_current_2 (DockWidgetModel_setCurrentIndex 2 tabs_1_2_current_2) =
     [SetVisible 2 False, TabBarSetCurrentIndex 2]"
proof -
  have d: "distinct (m_dockWidgets tabs_1_2_current_2)"
    by (simp add: tabs_1_2_current_2_fields)
  have n: "DockWidgetModel_count tabs_1_2_current_2 = 2"
    by (simp add: DockWidgetModel_count_def tabs_1_2_current_2_fields)
  from setCurrentIndex_then_currentIndex[OF d, of 0]
    setCurrentIndex_then_currentIndex[OF d, of 2] d n
  show ?thesis by (simp add: tabs_1_2_current_2_fields)
qed

subsection \<open>C4: destruction of a dock widget in the sequence\<close>

text \<open>
  Claim C4. When the destruction notification of a handle \<open>h\<close> that is in the sequence
  fires, in a state where the subscriptions are as the operations leave them
  (\<open>model_inv\<close>), the model removes \<open>h\<close> exactly once although nobody calls \<^verbatim>\<open>remove\<close>:
  the sequence afterwards is the old one without \<open>h\<close>, exactly one
  \<^verbatim>\<open>dockWidgetRemoved\<close> and one \<^verbatim>\<open>countChanged\<close> are emitted (between them and the two row
  signals nothing else, no warning of a second attempt), and no connection of \<open>h\<close> is left,
  recorded or live, that could trigger another removal.
\<close>

theorem destruction_removes_once:
  assumes "model_inv s" "dw \<in> set (m_dockWidgets s)"
  shows "(let s' = destroyed dw s; row = DockWidgetModel_indexOf s (Some dw) in
          m_dockWidgets s' = spec_delete (m_dockWidgets s) dw \<and>
          dw \<notin> set (m_dockWidgets s') \<and>
          emitted s s' =
            [RowsAboutToBeRemoved row row, RowsRemoved row row, CountChanged, DockWidgetRemoved] \<and>
          count_list (emitted s s') DockWidgetRemoved = 1 \<and>
          count_list (emitted s s') CountChanged = 1 \<and>
          m_connections s' dw = None \<and>
          live_connections_of s' dw = [] \<and>
          model_inv s')"
proof -
  let ?s' = "DockWidgetModel_remove dw s"
  have d: "destroyed dw s = ?s'" by (rule destroyed_present[OF assms])
  have inv': "model_inv ?s'" by (rule model_inv_remove[OF assms(1)])
  have l: "m_dockWidgets ?s' = spec_delete (m_dockWidgets s) dw"
    by (simp add: remove_fields spec_delete_def qlist_removeOne_distinct[OF model_inv_D(1)[OF assms(1)]])
  then have gone: "dw \<notin> set (m_dockWidgets ?s')" by (simp add: spec_delete_def)
  have e: "emitted s ?s' =
      [RowsAboutToBeRemoved (qlist_indexOf (m_dockWidgets s) dw) (qlist_indexOf (m_dockWidgets s) dw),
       RowsRemoved (qlist_indexOf (m_dockWidgets s) dw) (qlist_indexOf (m_dockWidgets s) dw),
       CountChanged, DockWidgetRemoved]"
    by (rule emitted_append) (simp add: remove_present[OF assms(2)])
  have m: "m_connections ?s' dw = None" by (simp add: remove_present[OF assms(2)])
  have q: "live_connections_of ?s' dw = []" by (rule live_connections_absent[OF inv' gone])
  show ?thesis
    unfolding d Let_def using l gone m q inv'
    by (simp add: e DockWidgetModel_indexOf_def)
qed

theorem destruction_removes_once_witness:
  "model_inv tabs_1_2_current_2 \<and> 1 \<in> set (m_dockWidgets tabs_1_2_current_2) \<and>
   m_dockWidgets (destroyed 1 tabs_1_2_current_2) = [2] \<and>
   emitted tabs_1_2_current_2 (destroyed 1 tabs_1_2_current_2) =
     [RowsAboutToBeRemoved 0 0, RowsRemoved 0 0, CountChanged, DockWidgetRemoved] \<and>
   count_list (emitted tabs_1_2_current_2 (destroyed 1 tabs_1_2_current_2)) DockWidgetRemoved = 1 \<and>
   count_list (emitted tabs_1_2_current_2 (destroyed 1 tabs_1_2_current_2)) CountChanged = 1"
proof -
  note m = model_inv_tabs_1_2_current_2
  have a: "1 \<in> set (m_dockWidgets tabs_1_2_current_2)"
    by (simp add: tabs_1_2_current_2_fields)
  have i: "DockWidgetModel_indexOf tabs_1_2_current_2 (Some (Suc 0)) = 0"
    by (simp add: DockWidgetModel_indexOf_def qlist_indexOf_def tabs_1_2_current_2_fields)
  from destruction_removes_once[OF m a] m a show ?thesis
    by (simp add: Let_def i spec_delete_def tabs_1_2_current_2_fields)
qed

subsection \<open>C5: sequences of insertions and removals\<close>

text \<open>
  Claim C5, as amended. Take any sequence of \<^verbatim>\<open>insert(h, i)\<close> and \<^verbatim>\<open>remove(h)\<close> calls on the
  freshly constructed model in which the inserted handles are pairwise distinct and every
  insertion index satisfies \<open>0 \<le> i \<le> count\<close> at the time of its call. Every call
  completes, and the resulting sequence is the one the list operations give: splicing in
  at the index for an insert, deleting the handle (the order of the others kept) for a
  remove. For every handle \<open>h\<close>, \<^verbatim>\<open>indexOf(h)\<close> afterwards is its position in that list, and
  \<open>-1\<close> for a handle that was removed or never inserted.
\<close>

theorem insert_remove_sequence_is_list_splicing:
  assumes "distinct (inserted_handles ops)" "indices_in_range ops []"
  shows "case run_ops ops DockWidgetModel_new of
           Inl e \<Rightarrow> False
         | Inr s \<Rightarrow>
             m_dockWidgets s = spec_run ops [] \<and>
             DockWidgetModel_indexOf s (Some h) = spec_position (spec_run ops []) h \<and>
             (h \<in> set (spec_run ops []) \<longrightarrow>
                0 \<le> DockWidgetModel_indexOf s (Some h) \<and>
                spec_run ops [] ! nat (DockWidgetModel_indexOf s (Some h)) = h) \<and>
             (h \<notin> set (spec_run ops []) \<longrightarrow> DockWidgetModel_indexOf s (Some h) = - 1)"
proof -
  have new: "m_dockWidgets DockWidgetModel_new = []"
    by (simp add: DockWidgetModel_new_def)
  from run_ops_refines[of ops DockWidgetModel_new] assms
  obtain s where s: "run_ops ops DockWidgetModel_new = Inr s"
    "m_dockWidgets s = spec_run ops []"
    by (auto simp: new)
  have "DockWidgetModel_indexOf s (Some h) = spec_position (spec_run ops []) h"
    by (simp add: indexOf_eq_position s(2))
  moreover have "h \<notin> set (spec_run ops []) \<longrightarrow> spec_position (spec_run ops []) h = - 1"
    by (simp add: spec_position_def)
  ultimately show ?thesis
    using s spec_position_nth[of h "spec_run ops []"] by simp
qed

theorem insert_remove_sequence_is_list_splicing_witness:
  "distinct (inserted_handles [Op_insert 1 0, Op_insert 2 1, Op_insert 3 1, Op_remove 1, Op_remove 9]) \<and>
   indices_in_range [Op_insert 1 0, Op_insert 2 1, Op_insert 3 1, Op_remove 1, Op_remove 9] [] \<and>
   (case run_ops [Op_insert 1 0, Op_insert 2 1, Op_insert 3 1, Op_remove 1, Op_remove 9]
           DockWidgetModel_new of
      Inl e \<Rightarrow> False
    | Inr s \<Rightarrow>
        m_dockWidgets s = [3, 2] \<and> DockWidgetModel_indexOf s (Some 2) = 1 \<and>
        DockWidgetModel_indexOf s (Some 1) = - 1)"
proof -
  let ?ops = "[Op_insert 1 0, Op_insert 2 1, Op_insert 3 1, Op_remove 1, Op_remove 9]"
  have d: "distinct (inserted_handles ?ops)" by simp
  have r: "indices_in_range ?ops []" by (simp add: spec_splice_in_def spec_delete_def)
  have sp: "spec_run ?ops [] = [3, 2]" by (simp add: spec_splice_in_def spec_delete_def)
  define res where "res = run_ops ?ops DockWidgetModel_new"
  note two = insert_remove_sequence_is_list_splicing[OF d r, of 2, folded res_def, unfolded sp]
  note one = insert_remove_sequence_is_list_splicing[OF d r, of 1, folded res_def, unfolded sp]
  have "case res of
      Inl e \<Rightarrow> False
    | Inr s \<Rightarrow>
        m_dockWidgets s = [3, 2] \<and> DockWidgetModel_indexOf s (Some 2) = 1 \<and>
        DockWidgetModel_indexOf s (Some 1) = - 1"
  proof (cases res)
    case (Inl e)
    with two show ?thesis by simp
  next
    case (Inr s)
    with two one show ?thesis by (simp add: spec_position_def)
  qed
  with d r show ?thesis unfolding res_def by blast
qed

text \<open>
  The claim as it was stated covers every index. \<^verbatim>\<open>insert(1, 5)\<close> on the empty model
  passes the duplicate check and then fails the range assertion of \<^verbatim>\<open>beginInsertRows\<close>
  and of the sequence's \<^verbatim>\<open>insert\<close>: there is no resulting sequence, whereas splicing into
  the empty list gives the list holding 1.
\<close>

theorem insert_out_of_range_counterexample:
  "distinct (inserted_handles [Op_insert 1 5]) \<and>
   run_ops [Op_insert 1 5] DockWidgetModel_new = Inl Assert_index_out_of_range \<and>
   spec_run [Op_insert 1 5] [] = [1]"
proof -
  have "DockWidgetModel_insert 1 5 DockWidgetModel_new = Inl Assert_index_out_of_range"
    by (rule insert_out_of_range) (simp_all add: DockWidgetModel_new_def)
  then show ?thesis by (simp add: spec_splice_in_def)
qed

subsection \<open>C6: inserting a dock widget that is already there\<close>

text \<open>
  Claim C6. In every state and for every index, \<^verbatim>\<open>insert(h, i)\<close> of a handle that is
  already in the sequence returns \<^verbatim>\<open>false\<close>; the sequence, the current dock widget and
  the subscriptions (the recorded and the live connections) are unchanged; the only event
  is the warning, so \<^verbatim>\<open>countChanged\<close> is not emitted; and in a sequence without
  duplicates the handle occurs exactly once afterwards.
\<close>

theorem insert_duplicate_rejected:
  assumes "dw \<in> set (m_dockWidgets s)"
  shows "case DockWidgetModel_insert dw index s of
           Inl e \<Rightarrow> False
         | Inr (ok, s') \<Rightarrow>
             \<not> ok \<and>
             m_dockWidgets s' = m_dockWidgets s \<and>
             m_currentDockWidget s' = m_currentDockWidget s \<and>
             m_connections s' = m_connections s \<and>
             qt_connections s' = qt_connections s \<and>
             emitted s s' = [QWarning Shouldnt_happen] \<and>
             CountChanged \<notin> set (emitted s s') \<and>
             (distinct (m_dockWidgets s) \<longrightarrow> count_list (m_dockWidgets s') dw = 1)"
  using assms
  by (simp add: insert_present emitted_def count_list_distinct)

theorem insert_duplicate_rejected_witness:
  "2 \<in> set (m_dockWidgets tabs_1_2_current_2) \<and>
   distinct (m_dockWidgets tabs_1_2_current_2) \<and>
   (case DockWidgetModel_insert 2 0 tabs_1_2_current_2 of
      Inl e \<Rightarrow> False
    | Inr (ok, s') \<Rightarrow>
        \<not> ok \<and> m_dockWidgets s' = [1, 2] \<and> m_currentDockWidget s' = Some 2 \<and>
        m_connections s' = m_connections tabs_1_2_current_2 \<and>
        qt_connections s' = qt_connections tabs_1_2_current_2 \<and>
        emitted tabs_1_2_current_2 s' = [QWarning Shouldnt_happen] \<and>
        count_list (m_dockWidgets s') 2 = 1)"
proof -
  have a: "2 \<in> set (m_dockWidgets tabs_1_2_current_2)"
    by (simp add: tabs_1_2_current_2_fields)
  from insert_duplicate_rejected[OF a, of 0] a show ?thesis
    by (auto simp: tabs_1_2_current_2_fields split: sum.splits)
qed

subsection \<open>C7: removing a dock widget that is not there\<close>

text \<open>
  Claim C7. In every state, \<^verbatim>\<open>remove(h)\<close> of a handle that is not in the sequence leaves
  the sequence and the current dock widget as they were, and emits neither
  \<^verbatim>\<open>dockWidgetRemoved\<close> nor \<^verbatim>\<open>countChanged\<close>.
\<close>

theorem remove_absent_no_effect:
  assumes "dw \<notin> set (m_dockWidgets s)"
  shows "m_dockWidgets (DockWidgetModel_remove dw s) = m_dockWidgets s \<and>
         m_currentDockWidget (DockWidgetModel_remove dw s) = m_currentDockWidget s \<and>
         DockWidgetRemoved \<notin> set (emitted s (DockWidgetModel_remove dw s)) \<and>
         CountChanged \<notin> set (emitted s (DockWidgetModel_remove dw s))"
  using assms by (simp add: remove_absent emitted_same)

theorem remove_absent_no_effect_witness:
  "3 \<notin> set (m_dockWidgets tabs_1_2_current_2) \<and>
   m_dockWidgets (DockWidgetModel_remove 3 tabs_1_2_current_2) = [1, 2] \<and>
   m_currentDockWidget (DockWidgetModel_remove 3 tabs_1_2_current_2) = Some 2 \<and>
   DockWidgetRemoved
     \<notin> set (emitted tabs_1_2_current_2 (DockWidgetModel_remove 3 tabs_1_2_current_2)) \<and>
   CountChanged
     \<notin> set (emitted tabs_1_2_current_2 (DockWidgetModel_remove 3 tabs_1_2_current_2))"
proof -
  have a: "3 \<notin> set (m_dockWidgets tabs_1_2_current_2)"
    by (simp add: tabs_1_2_current_2_fields)
  from remove_absent_no_effect[OF a] a show ?thesis
    by (simp add: tabs_1_2_current_2_fields)
qed

subsection \<open>C8: selecting the current dock widget again\<close>

text \<open>
  Claim C8. In a state with a current dock widget, \<^verbatim>\<open>setCurrentIndex\<close> with an index that
  resolves to that same dock widget changes nothing: the state is the same, and no event
  (hide, show, \<^verbatim>\<open>Core::TabBar::setCurrentIndex\<close>, or any other) is logged.
\<close>

theorem setCurrentIndex_same_is_noop:
  assumes "m_currentDockWidget s = Some dw" "DockWidgetModel_dockWidgetAt s index = Some dw"
  shows "DockWidgetModel_setCurrentIndex index s = s \<and>
         emitted s (DockWidgetModel_setCurrentIndex index s) = []"
  using assms by (simp add: setCurrentIndex_same emitted_same)

theorem setCurrentIndex_same_is_noop_witness:
  "m_currentDockWidget tabs_1_2_current_2 = Some 2 \<and>
   DockWidgetModel_dockWidgetAt tabs_1_2_current_2 1 = Some 2 \<and>
   DockWidgetModel_setCurrentIndex 1 tabs_1_2_current_2 = tabs_1_2_current_2 \<and>
   emitted tabs_1_2_current_2 (DockWidgetModel_setCurrentIndex 1 tabs_1_2_current_2) = []"
proof -
  have c: "m_currentDockWidget tabs_1_2_current_2 = Some 2"
    by (rule tabs_1_2_current_2_fields)
  have d: "DockWidgetModel_dockWidgetAt tabs_1_2_current_2 1 = Some 2"
    by (simp add: DockWidgetModel_dockWidgetAt_def tabs_1_2_current_2_fields)
  from setCurrentIndex_same_is_noop[OF c d] c d show ?thesis by blast
qed

subsection \<open>C9: the stub for moving a tab\<close>

text \<open>
  Claim C9. For all arguments \<open>from\<close> and \<open>to\<close>, \<^verbatim>\<open>TabBar::moveTabTo(from, to)\<close> of the
  QtQuick view leaves the whole tab bar as it was: the sequence, the current dock widget,
  the subscriptions, and the log of events, to which nothing is added.
\<close>

theorem moveTabTo_no_effect: "TabBar_moveTabTo from to t = t"
  by (simp add: TabBar_moveTabTo_def)

subsection \<open>C10: resolving an index\<close>

text \<open>
  Claim C10. For every index \<open>i\<close>, \<^verbatim>\<open>dockWidgetAt(i)\<close> returns the handle at position
  \<open>i\<close> when \<open>0 \<le> i < count\<close> and the null pointer for every other \<open>i\<close>, negative ones
  included; it never fails. \<^verbatim>\<open>setCurrentIndex(i)\<close> relies on it: whatever \<open>i\<close> is, the
  current dock widget afterwards is what \<^verbatim>\<open>dockWidgetAt(i)\<close> resolved, the null pointer
  for an index out of range.
\<close>

theorem dockWidgetAt_total:
  "DockWidgetModel_dockWidgetAt s i =
     (if 0 \<le> i \<and> i < DockWidgetModel_count s then Some (m_dockWidgets s ! nat i) else None)
   \<and> m_currentDockWidget (DockWidgetModel_setCurrentIndex i s) = DockWidgetModel_dockWidgetAt s i"
proof (cases "m_currentDockWidget s = DockWidgetModel_dockWidgetAt s i")
  case True
  then show ?thesis
    by (auto simp: setCurrentIndex_same DockWidgetModel_dockWidgetAt_def
        DockWidgetModel_count_def)
next
  case False
  then show ?thesis
    by (auto simp: setCurrentIndex_changes DockWidgetModel_dockWidgetAt_def
        DockWidgetModel_count_def)
qed

end
